theory Spec2Isabelle
  imports Complex_Main "HOL-Library.Sublist"
begin

section \<open>Errors\<close>

text \<open>
  The exceptions that the modelled Python can raise on the paths followed here:
  \<^verbatim>\<open>dists[0]\<close> on an empty list raises IndexError, \<^verbatim>\<open>np.argmax\<close> of an
  empty array raises ValueError. A function that can raise returns \<open>error + 'a\<close>.
\<close>

datatype error = IndexError | ValueError

section \<open>face_auth.py: the nearest-neighbour classifier\<close>

text \<open>
  \<^verbatim>\<open>xs[:k]\<close> for a Python int \<open>k\<close>: a negative \<open>k\<close> counts from the end and an
  out-of-range bound is clipped.
\<close>

definition py_prefix :: "int \<Rightarrow> 'a list \<Rightarrow> 'a list" where
  "py_prefix k xs =
     (if 0 \<le> k then take (nat k) xs else take (length xs - nat (- k)) xs)"

text \<open>
  \<^verbatim>\<open>np.argmax(counts)\<close>: the index of the first occurrence of the maximum; an empty
  array raises ValueError.
\<close>

definition np_argmax :: "nat list \<Rightarrow> error + nat" where
  "np_argmax cs =
     (if cs = [] then Inl ValueError
      else Inr (length (takeWhile (\<lambda>c. c \<noteq> Max (set cs)) cs)))"

text \<open>
  \<^verbatim>\<open>vals, counts = np.unique(top, return_counts=True)\<close>: the distinct values in
  ascending order, and how often each occurs in the list.
\<close>

definition np_unique_vals :: "int list \<Rightarrow> int list" where
  "np_unique_vals topk = sort (remdups topk)"

definition np_unique_counts :: "int list \<Rightarrow> nat list" where
  "np_unique_counts topk = map (count_list topk) (np_unique_vals topk)"

text \<open>
  A row of \<open>train\<close> is a feature vector with its class id in the last column. The
  distance \<^verbatim>\<open>_euclid_dist\<close> is a parameter \<open>euclid_dist\<close> of the model: the source
  computes it in floating point, and the classifier only compares its values, so any
  linearly ordered type of distances stands for it.

  \<^verbatim>\<open>dists.sort(key=lambda t: t[0])\<close> is a stable sort on the distance, as
  \<^const>\<open>sort_key\<close> is.
\<close>

definition knn_dists :: "('v \<Rightarrow> 'v \<Rightarrow> 'd::linorder) \<Rightarrow> ('v \<times> int) list \<Rightarrow> 'v \<Rightarrow> ('d \<times> int) list" where
  "knn_dists euclid_dist train test_vec =
     sort_key fst (map (\<lambda>row. (euclid_dist test_vec (fst row), snd row)) train)"

definition knn_neighbours :: "('v \<Rightarrow> 'v \<Rightarrow> 'd::linorder) \<Rightarrow> ('v \<times> int) list \<Rightarrow> 'v \<Rightarrow> int \<Rightarrow> ('d \<times> int) list" where
  "knn_neighbours euclid_dist train test_vec k =
     py_prefix k (knn_dists euclid_dist train test_vec)"

definition knn_top :: "('v \<Rightarrow> 'v \<Rightarrow> 'd::linorder) \<Rightarrow> ('v \<times> int) list \<Rightarrow> 'v \<Rightarrow> int \<Rightarrow> int list" where
  "knn_top euclid_dist train test_vec k =
     map snd (knn_neighbours euclid_dist train test_vec k)"

text \<open>
  \<^verbatim>\<open>_knn(train, test_vec, k, threshold)\<close>: class id, or \<open>-1\<close> if the best match is
  too far.
\<close>

definition knn :: "('v \<Rightarrow> 'v \<Rightarrow> 'd::linorder) \<Rightarrow> ('v \<times> int) list \<Rightarrow> 'v \<Rightarrow> int \<Rightarrow> 'd \<Rightarrow> error + int" where
  "knn euclid_dist train test_vec k threshold =
     (case knn_dists euclid_dist train test_vec of
        [] \<Rightarrow> Inl IndexError
      | d0 # _ \<Rightarrow>
          if fst d0 > threshold then Inr (- 1)
          else
            (let topk = knn_top euclid_dist train test_vec k in
             case np_argmax (np_unique_counts topk) of
               Inl e \<Rightarrow> Inl e
             | Inr i \<Rightarrow> Inr (np_unique_vals topk ! i)))"

text \<open>
  The distance from the sample to its nearest bank vector, in the words of the
  specification (defined for a non-empty bank).
\<close>

definition nearest_dist :: "('v \<Rightarrow> 'v \<Rightarrow> 'd::linorder) \<Rightarrow> ('v \<times> int) list \<Rightarrow> 'v \<Rightarrow> 'd" where
  "nearest_dist euclid_dist train test_vec =
     Min ((\<lambda>row. euclid_dist test_vec (fst row)) ` set train)"

text \<open>
  The two tie-break scores the specification names for a label among the \<open>k\<close>
  nearest neighbours: the sum of the distances of the neighbours carrying the label,
  and the least of them.
\<close>

definition label_dist_sum :: "(real \<times> int) list \<Rightarrow> int \<Rightarrow> real" where
  "label_dist_sum nbrs l = sum_list (map fst (filter (\<lambda>p. snd p = l) nbrs))"

definition label_dist_min :: "(real \<times> int) list \<Rightarrow> int \<Rightarrow> real" where
  "label_dist_min nbrs l = Min (set (map fst (filter (\<lambda>p. snd p = l) nbrs)))"

section \<open>config.py: the knobs read by the modelled code\<close>

text \<open>
  The module constants of \<^verbatim>\<open>config.py\<close> are read from the environment at import
  time; they are fields of one record. \<open>HAS_CV2\<close> (\<^verbatim>\<open>face_auth.py\<close>) and
  \<open>stt_available\<close> (\<^verbatim>\<open>stt.available\<close>) are fixed at import time too.
\<close>

record settings =
  STRICT_AUTH :: bool
  AUTO_RECOG_ON_START :: bool
  VOICE_MODE_DEFAULT :: bool
  FACE_MIN_SIZE :: int
  FACE_BLUR_THRESH :: real
  FACE_MAX_BLUR :: real
  FACE_DIST_THRESH :: real
  HAS_CV2 :: bool
  stt_available :: bool

section \<open>face_auth.py: the face bank and the recognition loop\<close>

text \<open>
  A file of \<^verbatim>\<open>face_dataset\<close>: its name and what \<^verbatim>\<open>np.load\<close> gives, either an
  array that is not two-dimensional or a matrix with one feature vector per row.
  The directory is the list of its files in \<^verbatim>\<open>os.listdir\<close> order, \<open>None\<close> when
  it does not exist. The feature vectors are of an abstract type \<open>'v\<close>; that all
  rows have one length (which \<^verbatim>\<open>np.concatenate\<close> needs) is assumed of the
  dataset.
\<close>

datatype 'v npy = NotMatrix | Matrix "'v list"

fun scan_dataset ::
  "(string \<times> 'v npy) list \<Rightarrow> int \<Rightarrow> ('v \<times> int) list list \<Rightarrow> (int \<rightharpoonup> string)
     \<Rightarrow> ('v \<times> int) list list \<times> (int \<rightharpoonup> string)" where
  "scan_dataset [] cid feats names = (feats, names)"
| "scan_dataset ((fn, X) # rest) cid feats names =
     (if suffix ''.npy'' fn then
        (case X of
           NotMatrix \<Rightarrow> scan_dataset rest cid feats names
         | Matrix rows \<Rightarrow>
             scan_dataset rest (cid + 1) (feats @ [map (\<lambda>v. (v, cid)) rows])
               (names(cid \<mapsto> py_prefix (- 4) fn)))
      else scan_dataset rest cid feats names)"

definition load_face_bank ::
  "bool \<Rightarrow> (string \<times> 'v npy) list option \<Rightarrow> (('v \<times> int) list \<times> (int \<rightharpoonup> string)) option" where
  "load_face_bank has_cv2 dataset =
     (case dataset of
        None \<Rightarrow> None
      | Some files \<Rightarrow>
          if \<not> has_cv2 then None
          else
            (case scan_dataset files 0 [] Map.empty of
               (feats, names) \<Rightarrow> if feats = [] then None else Some (concat feats, names)))"


text \<open>
  A detected face, as the loop of \<^verbatim>\<open>recognize_quick\<close> looks at it: the width and
  height of its box, the size of the cropped region, the sharpness \<^verbatim>\<open>fm\<close> of the
  normalised crop and the flattened crop itself. Detection, cropping, resizing and
  the Laplacian are OpenCV's. A frame is the list of faces detected in it, \<open>None\<close>
  when \<^verbatim>\<open>cap.read()\<close> fails.
\<close>

record 'v face =
  box_w :: int
  box_h :: int
  roi_size :: nat
  fm :: real
  roi100 :: 'v

type_synonym 'v frame = "'v face list option"

definition votes_get :: "(string \<rightharpoonup> int) \<Rightarrow> string \<Rightarrow> int" where
  "votes_get votes name = (case votes name of None \<Rightarrow> 0 | Some c \<Rightarrow> c)"

text \<open>
  The inner loop \<^verbatim>\<open>for (x, y, w, h) in faces\<close>. It ends either with the name that
  reached \<open>need_votes\<close> (the function returns) or with the tally for the next frame.
\<close>

fun faces_loop ::
  "settings \<Rightarrow> ('v \<Rightarrow> 'v \<Rightarrow> real) \<Rightarrow> ('v \<times> int) list \<Rightarrow> (int \<rightharpoonup> string) \<Rightarrow> int \<Rightarrow> int
     \<Rightarrow> 'v face list \<Rightarrow> (string \<rightharpoonup> int) \<Rightarrow> error + (string option \<times> (string \<rightharpoonup> int))" where
  "faces_loop cfg euclid_dist train names need_votes k [] votes = Inr (None, votes)"
| "faces_loop cfg euclid_dist train names need_votes k (f # faces) votes =
     (if box_w f < FACE_MIN_SIZE cfg \<or> box_h f < FACE_MIN_SIZE cfg then
        faces_loop cfg euclid_dist train names need_votes k faces votes
      else if roi_size f = 0 then
        faces_loop cfg euclid_dist train names need_votes k faces votes
      else if \<not> (FACE_BLUR_THRESH cfg \<le> fm f \<and> fm f \<le> FACE_MAX_BLUR cfg) then
        faces_loop cfg euclid_dist train names need_votes k faces votes
      else
        (case knn euclid_dist train (roi100 f) k (FACE_DIST_THRESH cfg) of
           Inl e \<Rightarrow> Inl e
         | Inr pred_id \<Rightarrow>
             if pred_id = - 1 then
               faces_loop cfg euclid_dist train names need_votes k faces votes
             else
               (case names pred_id of
                  None \<Rightarrow> faces_loop cfg euclid_dist train names need_votes k faces votes
                | Some name \<Rightarrow>
                    if name = [] then
                      faces_loop cfg euclid_dist train names need_votes k faces votes
                    else if votes_get votes name + 1 \<ge> need_votes then
                      Inr (Some name, votes(name \<mapsto> votes_get votes name + 1))
                    else
                      faces_loop cfg euclid_dist train names need_votes k faces
                        (votes(name \<mapsto> votes_get votes name + 1)))))"

text \<open>
  The outer loop \<^verbatim>\<open>while frames < timeout_frames\<close>, with the locals at the moment
  the function returns: the value returned, the tally \<^verbatim>\<open>votes\<close> and the counter
  \<^verbatim>\<open>frames\<close>. The camera is a stream: \<open>cap n\<close> is what the call of
  \<^verbatim>\<open>cap.read()\<close> gives after \<open>n\<close> earlier calls.
\<close>

record recog_out =
  result :: "string option"
  tally :: "string \<rightharpoonup> int"
  frames_read :: nat

function frames_loop ::
  "settings \<Rightarrow> ('v \<Rightarrow> 'v \<Rightarrow> real) \<Rightarrow> ('v \<times> int) list \<Rightarrow> (int \<rightharpoonup> string) \<Rightarrow> (nat \<Rightarrow> 'v frame)
     \<Rightarrow> int \<Rightarrow> int \<Rightarrow> int \<Rightarrow> (string \<rightharpoonup> int) \<Rightarrow> nat \<Rightarrow> error + recog_out" where
  "frames_loop cfg euclid_dist train names cap timeout_frames need_votes k votes frames =
     (if int frames < timeout_frames then
        (case cap frames of
           None \<Rightarrow>
             frames_loop cfg euclid_dist train names cap timeout_frames need_votes k votes
               (Suc frames)
         | Some faces \<Rightarrow>
             (case faces_loop cfg euclid_dist train names need_votes k faces votes of
                Inl e \<Rightarrow> Inl e
              | Inr (Some name, votes') \<Rightarrow>
                  Inr \<lparr>result = Some name, tally = votes', frames_read = Suc frames\<rparr>
              | Inr (None, votes') \<Rightarrow>
                  frames_loop cfg euclid_dist train names cap timeout_frames need_votes k votes'
                    (Suc frames)))
      else Inr \<lparr>result = None, tally = votes, frames_read = frames\<rparr>)"
  by pat_completeness auto
termination
  by (relation "measure (\<lambda>(cfg, euclid_dist, train, names, cap, timeout_frames, need_votes, k, votes, frames).
        nat (timeout_frames - int frames))") auto

declare frames_loop.simps [simp del]

text \<open>
  What \<^verbatim>\<open>recognize_quick\<close> finds outside the program: the dataset directory, the
  camera \<^verbatim>\<open>_open_camera(for_purpose="recognize")\<close> opens (\<open>None\<close> when none
  opens), whether the Haar cascade is found and loads, and the distance function.
\<close>

record 'v camera_world =
  face_dataset :: "(string \<times> 'v npy) list option"
  camera :: "(nat \<Rightarrow> 'v frame) option"
  cascade_ok :: bool
  euclid_dist :: "'v \<Rightarrow> 'v \<Rightarrow> real"

definition recognize_run ::
  "settings \<Rightarrow> 'v camera_world \<Rightarrow> int \<Rightarrow> int \<Rightarrow> int \<Rightarrow> error + recog_out" where
  "recognize_run cfg world timeout_frames need_votes k =
     (if \<not> HAS_CV2 cfg then Inr \<lparr>result = None, tally = Map.empty, frames_read = 0\<rparr>
      else
        (case load_face_bank (HAS_CV2 cfg) (face_dataset world) of
           None \<Rightarrow> Inr \<lparr>result = None, tally = Map.empty, frames_read = 0\<rparr>
         | Some (train, names) \<Rightarrow>
             (case camera world of
                None \<Rightarrow> Inr \<lparr>result = None, tally = Map.empty, frames_read = 0\<rparr>
              | Some cap \<Rightarrow>
                  if \<not> cascade_ok world then
                    Inr \<lparr>result = None, tally = Map.empty, frames_read = 0\<rparr>
                  else
                    frames_loop cfg (euclid_dist world) train names cap timeout_frames
                      need_votes k Map.empty 0)))"

definition recognize_quick ::
  "settings \<Rightarrow> 'v camera_world \<Rightarrow> int \<Rightarrow> int \<Rightarrow> int \<Rightarrow> error + string option" where
  "recognize_quick cfg world timeout_frames need_votes k =
     (case recognize_run cfg world timeout_frames need_votes k of
        Inl e \<Rightarrow> Inl e
      | Inr out \<Rightarrow> Inr (result out))"

section \<open>The vote aggregator in the words of the specification\<close>

text \<open>
  The vote of one detected face: the name of the label it is classified as, if it
  passes the quality filter, the classifier does not reject it and the label has a
  name (no vote where the classifier raises; the properties below are stated for
  banks on which it does not). The votes of a frame are those of its faces in the
  order of detection, the votes of a stream those of its frames \<open>a\<close>, ...,
  \<open>b - 1\<close> in order.
\<close>

definition face_vote ::
  "settings \<Rightarrow> ('v \<Rightarrow> 'v \<Rightarrow> real) \<Rightarrow> ('v \<times> int) list \<Rightarrow> (int \<rightharpoonup> string) \<Rightarrow> int \<Rightarrow> 'v face
     \<Rightarrow> string option" where
  "face_vote cfg d train names k f =
     (if box_w f < FACE_MIN_SIZE cfg \<or> box_h f < FACE_MIN_SIZE cfg then None
      else if roi_size f = 0 then None
      else if \<not> (FACE_BLUR_THRESH cfg \<le> fm f \<and> fm f \<le> FACE_MAX_BLUR cfg) then None
      else
        (case knn d train (roi100 f) k (FACE_DIST_THRESH cfg) of
           Inl e \<Rightarrow> None
         | Inr pred_id \<Rightarrow>
             if pred_id = - 1 then None
             else (case names pred_id of
                     None \<Rightarrow> None
                   | Some name \<Rightarrow> if name = [] then None else Some name)))"

definition frame_votes ::
  "settings \<Rightarrow> ('v \<Rightarrow> 'v \<Rightarrow> real) \<Rightarrow> ('v \<times> int) list \<Rightarrow> (int \<rightharpoonup> string) \<Rightarrow> int \<Rightarrow> 'v frame
     \<Rightarrow> string list" where
  "frame_votes cfg d train names k fr =
     (case fr of
        None \<Rightarrow> []
      | Some faces \<Rightarrow> List.map_filter (face_vote cfg d train names k) faces)"

definition stream_votes ::
  "settings \<Rightarrow> ('v \<Rightarrow> 'v \<Rightarrow> real) \<Rightarrow> ('v \<times> int) list \<Rightarrow> (int \<rightharpoonup> string) \<Rightarrow> int
     \<Rightarrow> (nat \<Rightarrow> 'v frame) \<Rightarrow> nat \<Rightarrow> nat \<Rightarrow> string list" where
  "stream_votes cfg d train names k cap a b =
     concat (map (\<lambda>i. frame_votes cfg d train names k (cap i)) [a..<b])"

text \<open>
  The vote at position \<open>i\<close> of a sequence of votes brings the tally of its label to
  the required number.
\<close>

definition reaches :: "int \<Rightarrow> string list \<Rightarrow> nat \<Rightarrow> bool" where
  "reaches need vs i \<longleftrightarrow> i < length vs \<and> need \<le> int (count_list (take (Suc i) vs) (vs ! i))"

text \<open>
  Counting a sequence of votes one by one into a tally, stopping at the first vote
  that brings its label to the required number.
\<close>

fun tally_votes :: "int \<Rightarrow> (string \<rightharpoonup> int) \<Rightarrow> string list \<Rightarrow> string option \<times> (string \<rightharpoonup> int)" where
  "tally_votes need votes [] = (None, votes)"
| "tally_votes need votes (name # rest) =
     (if votes_get votes name + 1 \<ge> need
      then (Some name, votes(name \<mapsto> votes_get votes name + 1))
      else tally_votes need (votes(name \<mapsto> votes_get votes name + 1)) rest)"

section \<open>personas.py and profiles.py\<close>

text \<open>
  \<^verbatim>\<open>PERSONAS\<close> is a dictionary; only its keys matter to the session logic. The
  prompts it holds are not modelled.
\<close>

definition PERSONAS :: "string set" where
  "PERSONAS = {''Aldridge'', ''Professor'', ''Guest''}"

text \<open>\<^verbatim>\<open>str.lower()\<close> on ASCII text.\<close>

definition lower_char :: "char \<Rightarrow> char" where
  "lower_char c =
     (case map_of (zip ''ABCDEFGHIJKLMNOPQRSTUVWXYZ'' ''abcdefghijklmnopqrstuvwxyz'') c of
        None \<Rightarrow> c
      | Some l \<Rightarrow> l)"

definition str_lower :: "string \<Rightarrow> string" where
  "str_lower txt = map lower_char txt"

text \<open>
  The profile store is the JSON object of \<^verbatim>\<open>profiles.json\<close>: one entry per
  identity, with the optional keys \<^verbatim>\<open>places\<close>, \<^verbatim>\<open>tts\<close> and \<^verbatim>\<open>permissions\<close>,
  and the key \<^verbatim>\<open>_last_identity\<close> holding a name. A key that is absent is \<open>None\<close>.
\<close>

record tts_prefs =
  enabled :: bool
  voice_index :: "int option"
  rate :: "int option"

record profile =
  places :: "(string \<rightharpoonup> string) option"
  tts :: "tts_prefs option"
  permissions :: "(string \<rightharpoonup> bool) option"

record profile_store =
  last_identity :: "string option"
  entries :: "string \<rightharpoonup> profile"

definition default_tts :: tts_prefs where
  "default_tts = \<lparr>enabled = True, voice_index = None, rate = None\<rparr>"

definition empty_profile :: profile where
  "empty_profile = \<lparr>places = None, tts = None, permissions = None\<rparr>"

text \<open>\<^verbatim>\<open>ensure_identity_struct\<close>: four \<^verbatim>\<open>setdefault\<close> calls, in the source's order.\<close>

definition ensure_identity_struct :: "profile_store \<Rightarrow> string \<Rightarrow> profile_store" where
  "ensure_identity_struct store ident =
     (let pr0 = (case entries store ident of None \<Rightarrow> empty_profile | Some pr \<Rightarrow> pr);
          pr1 = (case places pr0 of None \<Rightarrow> pr0\<lparr>places := Some Map.empty\<rparr> | Some _ \<Rightarrow> pr0);
          pr2 = (case tts pr1 of None \<Rightarrow> pr1\<lparr>tts := Some default_tts\<rparr> | Some _ \<Rightarrow> pr1);
          pr3 = (case permissions pr2 of
                   None \<Rightarrow> pr2\<lparr>permissions := Some [''calendar'' \<mapsto> (ident = ''Aldridge'')]\<rparr>
                 | Some _ \<Rightarrow> pr2)
      in store\<lparr>entries := (entries store)(ident \<mapsto> pr3)\<rparr>)"

text \<open>
  \<^verbatim>\<open>profiles.get(identity, {}).get("permissions", {}).get("calendar", False)\<close>
\<close>

definition has_calendar_permission :: "string \<Rightarrow> profile_store \<Rightarrow> bool" where
  "has_calendar_permission ident store =
     (case entries store ident of
        None \<Rightarrow> False
      | Some pr \<Rightarrow>
          (case permissions pr of
             None \<Rightarrow> False
           | Some perms \<Rightarrow> (case perms ''calendar'' of None \<Rightarrow> False | Some b \<Rightarrow> b)))"

text \<open>The calendar flag as it is stored, \<open>None\<close> where no flag is stored.\<close>

definition calendar_flag :: "profile_store \<Rightarrow> string \<Rightarrow> bool option" where
  "calendar_flag store ident =
     (case entries store ident of
        None \<Rightarrow> None
      | Some pr \<Rightarrow> (case permissions pr of None \<Rightarrow> None | Some perms \<Rightarrow> perms ''calendar''))"

text \<open>The dictionary \<^verbatim>\<open>profiles[identity]["permissions"]\<close>, \<open>None\<close> when it does not exist.\<close>

definition stored_permissions :: "profile_store \<Rightarrow> string \<Rightarrow> (string \<rightharpoonup> bool) option" where
  "stored_permissions store ident =
     (case entries store ident of None \<Rightarrow> None | Some pr \<Rightarrow> permissions pr)"

text \<open>\<^verbatim>\<open>key in profiles\<close>: the identities' entries and the key \<^verbatim>\<open>_last_identity\<close>.\<close>

definition in_profiles :: "string \<Rightarrow> profile_store \<Rightarrow> bool" where
  "in_profiles key store =
     (case entries store key of
        Some _ \<Rightarrow> True
      | None \<Rightarrow> key = ''_last_identity'' \<and> last_identity store \<noteq> None)"

text \<open>
  The reads and writes of \<^verbatim>\<open>profiles[identity][...]\<close> the loop makes. Each follows
  a call of \<^verbatim>\<open>ensure_identity_struct\<close> for the same identity, so the keys exist;
  the defaults below are never reached from the loop.
\<close>

definition tts_of :: "profile_store \<Rightarrow> string \<Rightarrow> tts_prefs" where
  "tts_of store ident =
     (case entries store ident of
        None \<Rightarrow> default_tts
      | Some pr \<Rightarrow> (case tts pr of None \<Rightarrow> default_tts | Some t \<Rightarrow> t))"

definition set_tts :: "profile_store \<Rightarrow> string \<Rightarrow> tts_prefs \<Rightarrow> profile_store" where
  "set_tts store ident t =
     (case entries store ident of
        None \<Rightarrow> store
      | Some pr \<Rightarrow> store\<lparr>entries := (entries store)(ident \<mapsto> pr\<lparr>tts := Some t\<rparr>)\<rparr>)"

definition set_calendar :: "profile_store \<Rightarrow> string \<Rightarrow> bool \<Rightarrow> profile_store" where
  "set_calendar store ident b =
     (case entries store ident of
        None \<Rightarrow> store
      | Some pr \<Rightarrow>
          (case permissions pr of
             None \<Rightarrow> store
           | Some perms \<Rightarrow>
               store\<lparr>entries :=
                 (entries store)(ident \<mapsto> pr\<lparr>permissions := Some (perms(''calendar'' \<mapsto> b))\<rparr>)\<rparr>))"

definition places_of :: "profile_store \<Rightarrow> string \<Rightarrow> (string \<rightharpoonup> string)" where
  "places_of store ident =
     (case entries store ident of
        None \<Rightarrow> Map.empty
      | Some pr \<Rightarrow> (case places pr of None \<Rightarrow> Map.empty | Some pl \<Rightarrow> pl))"

definition set_place :: "profile_store \<Rightarrow> string \<Rightarrow> string \<Rightarrow> string \<Rightarrow> profile_store" where
  "set_place store ident key val =
     (case entries store ident of
        None \<Rightarrow> store
      | Some pr \<Rightarrow>
          (case places pr of
             None \<Rightarrow> store
           | Some pl \<Rightarrow>
               store\<lparr>entries := (entries store)(ident \<mapsto> pr\<lparr>places := Some (pl(key \<mapsto> val))\<rparr>)\<rparr>))"

section \<open>The startup identity decision\<close>

text \<open>
  Both functions call \<^verbatim>\<open>recognize_quick(timeout_frames=250, need_votes=5, k=5)\<close>;
  the argument \<open>recognized\<close> is what that call gives (its value or the exception it
  raises), used only where the source makes the call.

  \<^verbatim>\<open>attempt_auto_identity\<close> of \<^verbatim>\<open>repl.py\<close> is the one \<^verbatim>\<open>run_repl\<close> calls.
\<close>

definition attempt_auto_identity ::
  "settings \<Rightarrow> error + string option \<Rightarrow> profile_store \<Rightarrow> error + (string \<times> bool)" where
  "attempt_auto_identity cfg recognized store =
     (case (if HAS_CV2 cfg then recognized else Inr None) of
        Inl e \<Rightarrow> Inl e
      | Inr who \<Rightarrow>
          if STRICT_AUTH cfg then
            (case who of
               None \<Rightarrow> Inr (''LOCKED'', False)
             | Some name \<Rightarrow>
                 if name \<noteq> [] \<and> name \<in> PERSONAS then Inr (name, True)
                 else Inr (''LOCKED'', False))
          else
            (case who of
               Some name \<Rightarrow>
                 if name \<noteq> [] \<and> name \<in> PERSONAS then Inr (name, True)
                 else
                   (case last_identity store of
                      None \<Rightarrow> Inr (''Aldridge'', True)
                    | Some last_id \<Rightarrow>
                        if last_id \<in> PERSONAS then Inr (last_id, True)
                        else Inr (''Aldridge'', True))
             | None \<Rightarrow>
                 (case last_identity store of
                    None \<Rightarrow> Inr (''Aldridge'', True)
                  | Some last_id \<Rightarrow>
                      if last_id \<in> PERSONAS then Inr (last_id, True)
                      else Inr (''Aldridge'', True))))"

text \<open>\<^verbatim>\<open>choose_identity_from_faces_or_fallback\<close> of \<^verbatim>\<open>face_auth.py\<close>.\<close>

definition choose_identity_from_faces_or_fallback ::
  "settings \<Rightarrow> bool \<Rightarrow> error + string option \<Rightarrow> profile_store \<Rightarrow> error + (string \<times> bool)" where
  "choose_identity_from_faces_or_fallback cfg try_camera recognized store =
     (case (if try_camera \<and> AUTO_RECOG_ON_START cfg then recognized else Inr None) of
        Inl e \<Rightarrow> Inl e
      | Inr who \<Rightarrow>
          if STRICT_AUTH cfg then
            (case who of
               None \<Rightarrow> Inr (''LOCKED'', False)
             | Some name \<Rightarrow>
                 if name \<noteq> [] \<and> in_profiles name store \<and> str_lower name \<noteq> ''guest''
                 then Inr (name, True)
                 else Inr (''LOCKED'', False))
          else
            (case (case who of
                     None \<Rightarrow> None
                   | Some name \<Rightarrow> if name \<noteq> [] \<and> in_profiles name store then Some name else None) of
               Some name \<Rightarrow> Inr (name, True)
             | None \<Rightarrow>
                 (case last_identity store of
                    None \<Rightarrow> Inr (''Guest'', False)
                  | Some last_id \<Rightarrow>
                      if last_id \<noteq> [] \<and> in_profiles last_id store then Inr (last_id, True)
                      else Inr (''Guest'', False))))"

section \<open>llm.py and repl.py: the command loop\<close>

text \<open>
  The chat history starts with the three system messages of a persona; they are one
  \<open>SeedSystem\<close> entry naming the persona (\<^verbatim>\<open>seed_chat_history\<close> falls back to
  Aldridge for an identity that is no key of \<^verbatim>\<open>PERSONAS\<close>).
\<close>

datatype message = SeedSystem string | UserTurn string | AssistantTurn string

definition seed_chat_history :: "string \<Rightarrow> message list" where
  "seed_chat_history ident = [SeedSystem (if ident \<notin> PERSONAS then ''Aldridge'' else ident)]"

definition set_model :: "string \<Rightarrow> string \<Rightarrow> string" where
  "set_model current new_model_name = (if new_model_name = [] then current else new_model_name)"

text \<open>\<^verbatim>\<open>locked_like = (identity == "LOCKED" or identity == "guest")\<close>\<close>

definition locked_like :: "string \<Rightarrow> bool" where
  "locked_like ident = (ident = ''LOCKED'' \<or> ident = ''guest'')"

text \<open>The locals of \<^verbatim>\<open>run_repl\<close> that live across iterations, and the model tag.\<close>

record repl_state =
  identity :: string
  profiles :: profile_store
  history :: "message list"
  tts_enabled :: bool
  tts_voice_index :: "int option"
  tts_rate :: "int option"
  voice_mode :: bool
  model :: string

text \<open>
  A line of input in the form the loop's tests on \<^verbatim>\<open>low\<close> give it, in the order of
  those tests, with the argument the branch extracts from the line: \<open>Switch\<close> is the
  line \<^verbatim>\<open>/switch\<close> alone, \<open>VoiceIdx None\<close> and \<open>Rate None\<close> a number that does not
  parse, \<open>SetPlace None\<close> a line the pattern of \<^verbatim>\<open>/setplace\<close> does not match,
  \<open>Other\<close> any line that is none of the commands. The input stage gives a line, the
  end of input (\<open>Eof\<close>), nothing (\<open>Blank\<close>: an empty line, or nothing heard), or
  an exit phrase heard in voice mode (\<open>Paused\<close>).
\<close>

datatype command =
    Exit | Help | Recognize | SetupProfile string | Lock | Login string | Switch
  | Clear | Model string | Tts string | Voices | VoiceIdx "int option" | Rate "int option"
  | Voice string | GrantCalendar string | RevokeCalendar string | Agenda
  | Nav string | SetPlace "(string \<times> string) option" | Places | Mic | Other

datatype input = Eof | Blank | Paused | Line command

text \<open>
  What the iteration observes outside the program: the value of
  \<^verbatim>\<open>recognize_quick(timeout_frames=250, need_votes=5, k=5)\<close>, whether the line
  contains one of the calendar words, whether \<^verbatim>\<open>handle_calendar_text\<close> handles
  it, what \<^verbatim>\<open>/mic\<close> hears and whether the calendar handles that, the place the
  navigation pattern finds in the text (\<open>None\<close> when it does not match), the reply
  of the language model (\<open>None\<close> when \<^verbatim>\<open>chat_turn\<close> raises) and the text
  itself.
\<close>

record observation =
  recognized :: "error + string option"
  cal_words :: bool
  cal_handled :: bool
  heard :: "string option"
  heard_cal_handled :: bool
  nav_place :: "string option"
  reply :: "string option"
  said :: string

text \<open>
  What an iteration does outside its locals: the refusals it prints, and the calls
  that read or write the persisted store, the calendar, the saved places, the maps
  or the language model. \<open>ReadCalendarPermission\<close> records an evaluation of
  \<^verbatim>\<open>has_calendar_permission\<close>. Other printing and speech are not recorded.
\<close>

datatype refusal =
    CameraUnavailable | NoFaceRecognized | NoProfileForFace | LoginTargetNotAllowed
  | GuestCannotSwitch | CannotSwitchFromHere | OnlyAldridgeGrants | OnlyAldridgeRevokes
  | NotADefinedPersona | LockedGuestCalendar | NoCalendarAccess | LockedGuestNavigation
  | LockedGuestSavePlace | LockedGuestPlaces | NoSuchPlace | SttUnavailable | Usage

datatype effect =
    Refused refusal
  | SaveProfiles
  | CaptureProfile string
  | ReadCalendarPermission string
  | ListUpcoming string
  | HandleCalendarText string
  | ReadPlaces string
  | OpenMaps string
  | SavePlace string string string
  | ChatTurn string

text \<open>
  The sensitive operations: reading the calendar permission, the calendar, the saved
  places, opening a saved place in the maps, and saving a place.
\<close>

fun sensitive :: "effect \<Rightarrow> bool" where
  "sensitive (ReadCalendarPermission _) = True"
| "sensitive (ListUpcoming _) = True"
| "sensitive (HandleCalendarText _) = True"
| "sensitive (ReadPlaces _) = True"
| "sensitive (OpenMaps _) = True"
| "sensitive (SavePlace _ _ _) = True"
| "sensitive _ = False"

datatype status = Continue | Break | Raised error

type_synonym outcome = "status \<times> repl_state \<times> effect list"

definition after :: "effect list \<Rightarrow> outcome \<Rightarrow> outcome" where
  "after es rest = (case rest of (st, s, es') \<Rightarrow> (st, s, es @ es'))"

text \<open>
  The block that \<^verbatim>\<open>/recognize\<close> (case 2) and \<^verbatim>\<open>/login\<close> share: the identity
  changes, \<^verbatim>\<open>_last_identity\<close> is stored and saved, the history is seeded, the
  profile is completed, the speech settings are read from it, and voice mode is
  switched on when it is available.
\<close>

definition log_in_as :: "settings \<Rightarrow> string \<Rightarrow> repl_state \<Rightarrow> repl_state" where
  "log_in_as cfg who s =
     (let store = ensure_identity_struct ((profiles s)\<lparr>last_identity := Some who\<rparr>) who;
          t = tts_of store who
      in s\<lparr>identity := who, profiles := store, history := seed_chat_history who,
            tts_enabled := enabled t, tts_voice_index := voice_index t, tts_rate := rate t,
            voice_mode := (if stt_available cfg \<and> VOICE_MODE_DEFAULT cfg then True
                           else voice_mode s)\<rparr>)"

text \<open>The natural-language navigation request and the chat fallback that end an iteration.\<close>

definition navigate_or_chat :: "observation \<Rightarrow> string \<Rightarrow> repl_state \<Rightarrow> outcome" where
  "navigate_or_chat ob user s =
     (case nav_place ob of
        Some place_key \<Rightarrow>
          if locked_like (identity s) then (Continue, s, [Refused LockedGuestNavigation])
          else
            (case places_of (profiles s) (identity s) place_key of
               None \<Rightarrow> (Continue, s, [ReadPlaces (identity s), Refused NoSuchPlace])
             | Some dest \<Rightarrow>
                 if dest = [] then (Continue, s, [ReadPlaces (identity s), Refused NoSuchPlace])
                 else (Continue, s, [ReadPlaces (identity s), OpenMaps dest]))
      | None \<Rightarrow>
          (case reply ob of
             None \<Rightarrow> (Continue, s, [ChatTurn (identity s)])
           | Some assistant_text \<Rightarrow>
               (Continue,
                s\<lparr>history := history s @ [UserTurn user, AssistantTurn assistant_text]\<rparr>,
                [ChatTurn (identity s)])))"

text \<open>
  The block "natural language calendar questions", which every line that is none of
  the commands up to \<^verbatim>\<open>/agenda\<close> passes before the tests for \<^verbatim>\<open>/nav\<close>,
  \<^verbatim>\<open>/setplace\<close>, \<^verbatim>\<open>/places\<close> and \<^verbatim>\<open>/mic\<close>. In
  \<^verbatim>\<open>not locked_like and has_calendar_permission(identity, profiles)\<close> the second
  operand is evaluated only when the first holds.
\<close>

definition calendar_text :: "observation \<Rightarrow> repl_state \<Rightarrow> outcome \<Rightarrow> outcome" where
  "calendar_text ob s rest =
     (if locked_like (identity s) then
        (if cal_words ob then (Continue, s, [Refused LockedGuestCalendar]) else rest)
      else if has_calendar_permission (identity s) (profiles s) then
        (if cal_handled ob then
           (Continue, s, [ReadCalendarPermission (identity s), HandleCalendarText (identity s)])
         else
           after [ReadCalendarPermission (identity s), HandleCalendarText (identity s)] rest)
      else if cal_words ob then
        (Continue, s, [ReadCalendarPermission (identity s), Refused NoCalendarAccess])
      else after [ReadCalendarPermission (identity s)] rest)"

text \<open>One pass through the body of \<^verbatim>\<open>while True\<close> for a line, branch by branch.\<close>

fun dispatch :: "settings \<Rightarrow> command \<Rightarrow> observation \<Rightarrow> repl_state \<Rightarrow> outcome" where
  "dispatch cfg Exit ob s = (Break, s, [])"
| "dispatch cfg Help ob s = (Continue, s, [])"
| "dispatch cfg Recognize ob s =
     (if \<not> HAS_CV2 cfg then (Continue, s, [Refused CameraUnavailable])
      else
        (case recognized ob of
           Inl e \<Rightarrow> (Raised e, s, [])
         | Inr None \<Rightarrow> (Continue, s, [Refused NoFaceRecognized])
         | Inr (Some who) \<Rightarrow>
             if who = [] then (Continue, s, [Refused NoFaceRecognized])
             else if who \<notin> PERSONAS then (Continue, s, [Refused NoProfileForFace])
             else (Continue, log_in_as cfg who s, [SaveProfiles])))"
| "dispatch cfg (SetupProfile name) ob s =
     (if name = [] then (Continue, s, [Refused Usage])
      else (Continue, s, [CaptureProfile name]))"
| "dispatch cfg Lock ob s = (Continue, s\<lparr>identity := ''LOCKED'', voice_mode := False\<rparr>, [])"
| "dispatch cfg (Login devname) ob s =
     (if devname \<in> PERSONAS \<and> str_lower devname \<noteq> ''guest''
      then (Continue, log_in_as cfg devname s, [SaveProfiles])
      else (Continue, s, [Refused LoginTargetNotAllowed]))"
| "dispatch cfg Switch ob s =
     (if identity s = ''Aldridge'' \<or> identity s = ''Professor'' then
        (let target = (if identity s = ''Aldridge'' then ''Professor'' else ''Aldridge'');
             store = ensure_identity_struct (profiles s) target;
             t = tts_of store target
         in (Continue,
             s\<lparr>identity := target, profiles := store\<lparr>last_identity := Some target\<rparr>,
               history := seed_chat_history target,
               tts_enabled := enabled t, tts_voice_index := voice_index t, tts_rate := rate t\<rparr>,
             [SaveProfiles]))
      else if identity s = ''LOCKED'' then
        (Continue,
         s\<lparr>identity := ''guest'', history := seed_chat_history ''Aldridge'',
           voice_mode := (if stt_available cfg \<and> VOICE_MODE_DEFAULT cfg then True
                          else voice_mode s)\<rparr>,
         [])
      else if identity s = ''guest'' then (Continue, s, [Refused GuestCannotSwitch])
      else (Continue, s, [Refused CannotSwitchFromHere]))"
| "dispatch cfg Clear ob s =
     (Continue,
      s\<lparr>history := (if identity s \<in> PERSONAS then seed_chat_history (identity s)
                      else seed_chat_history ''Aldridge'')\<rparr>,
      [])"
| "dispatch cfg (Model new_model) ob s =
     (Continue, s\<lparr>model := set_model (model s) new_model\<rparr>, [])"
| "dispatch cfg (Tts arg) ob s =
     (if arg = ''on'' \<or> arg = ''off'' then
        (if identity s \<in> PERSONAS then
           (let store = ensure_identity_struct (profiles s) (identity s) in
            (Continue,
             s\<lparr>tts_enabled := (arg = ''on''),
               profiles := set_tts store (identity s)
                             ((tts_of store (identity s))\<lparr>enabled := (arg = ''on'')\<rparr>)\<rparr>,
             [SaveProfiles]))
         else (Continue, s\<lparr>tts_enabled := (arg = ''on'')\<rparr>, []))
      else (Continue, s, []))"
| "dispatch cfg Voices ob s = (Continue, s, [])"
| "dispatch cfg (VoiceIdx parsed) ob s =
     (case parsed of
        None \<Rightarrow> (Continue, s, [Refused Usage])
      | Some idx \<Rightarrow>
          if identity s \<in> PERSONAS then
            (let store = ensure_identity_struct (profiles s) (identity s) in
             (Continue,
              s\<lparr>tts_voice_index := Some idx,
                profiles := set_tts store (identity s)
                              ((tts_of store (identity s))\<lparr>voice_index := Some idx\<rparr>)\<rparr>,
              [SaveProfiles]))
          else (Continue, s\<lparr>tts_voice_index := Some idx\<rparr>, []))"
| "dispatch cfg (Rate parsed) ob s =
     (case parsed of
        None \<Rightarrow> (Continue, s, [Refused Usage])
      | Some rate_val \<Rightarrow>
          if identity s \<in> PERSONAS then
            (let store = ensure_identity_struct (profiles s) (identity s) in
             (Continue,
              s\<lparr>tts_rate := Some rate_val,
                profiles := set_tts store (identity s)
                              ((tts_of store (identity s))\<lparr>rate := Some rate_val\<rparr>)\<rparr>,
              [SaveProfiles]))
          else (Continue, s\<lparr>tts_rate := Some rate_val\<rparr>, []))"
| "dispatch cfg (Voice arg) ob s =
     (if arg = ''on'' then
        (if \<not> stt_available cfg then (Continue, s, [Refused SttUnavailable])
         else (Continue, s\<lparr>voice_mode := True\<rparr>, []))
      else if arg = ''off'' then (Continue, s\<lparr>voice_mode := False\<rparr>, [])
      else if arg = ''status'' then (Continue, s, [])
      else (Continue, s, [Refused Usage]))"
| "dispatch cfg (GrantCalendar target) ob s =
     (if identity s \<noteq> ''Aldridge'' then (Continue, s, [Refused OnlyAldridgeGrants])
      else if target \<notin> PERSONAS then (Continue, s, [Refused NotADefinedPersona])
      else
        (Continue,
         s\<lparr>profiles := set_calendar (ensure_identity_struct (profiles s) target) target True\<rparr>,
         [SaveProfiles]))"
| "dispatch cfg (RevokeCalendar target) ob s =
     (if identity s \<noteq> ''Aldridge'' then (Continue, s, [Refused OnlyAldridgeRevokes])
      else if target \<notin> PERSONAS then (Continue, s, [Refused NotADefinedPersona])
      else
        (Continue,
         s\<lparr>profiles := set_calendar (ensure_identity_struct (profiles s) target) target False\<rparr>,
         [SaveProfiles]))"
| "dispatch cfg Agenda ob s =
     (if locked_like (identity s) then (Continue, s, [Refused LockedGuestCalendar])
      else if \<not> has_calendar_permission (identity s) (profiles s) then
        (Continue, s, [ReadCalendarPermission (identity s), Refused NoCalendarAccess])
      else (Continue, s, [ReadCalendarPermission (identity s), ListUpcoming (identity s)]))"
| "dispatch cfg (Nav key) ob s =
     calendar_text ob s
       (if locked_like (identity s) then (Continue, s, [Refused LockedGuestNavigation])
        else
          (case places_of (profiles s) (identity s) key of
             None \<Rightarrow> (Continue, s, [ReadPlaces (identity s), Refused NoSuchPlace])
           | Some dest \<Rightarrow>
               if dest = [] then (Continue, s, [ReadPlaces (identity s), Refused NoSuchPlace])
               else (Continue, s, [ReadPlaces (identity s), OpenMaps dest])))"
| "dispatch cfg (SetPlace parsed) ob s =
     calendar_text ob s
       (if locked_like (identity s) then (Continue, s, [Refused LockedGuestSavePlace])
        else
          (case parsed of
             None \<Rightarrow> (Continue, s, [Refused Usage])
           | Some (key, val) \<Rightarrow>
               (Continue,
                s\<lparr>profiles :=
                    set_place (ensure_identity_struct (profiles s) (identity s)) (identity s) key val\<rparr>,
                [SavePlace (identity s) key val, SaveProfiles])))"
| "dispatch cfg Places ob s =
     calendar_text ob s
       (if locked_like (identity s) then (Continue, s, [Refused LockedGuestPlaces])
        else (Continue, s, [ReadPlaces (identity s)]))"
| "dispatch cfg Mic ob s =
     calendar_text ob s
       (if \<not> stt_available cfg then (Continue, s, [Refused SttUnavailable])
        else
          (case heard ob of
             None \<Rightarrow> (Continue, s, [])
           | Some spoken \<Rightarrow>
               if spoken = [] then (Continue, s, [])
               else if locked_like (identity s) then navigate_or_chat ob spoken s
               else if has_calendar_permission (identity s) (profiles s) then
                 (if heard_cal_handled ob then
                    (Continue, s,
                     [ReadCalendarPermission (identity s), HandleCalendarText (identity s)])
                  else
                    after [ReadCalendarPermission (identity s), HandleCalendarText (identity s)]
                      (navigate_or_chat ob spoken s))
               else after [ReadCalendarPermission (identity s)] (navigate_or_chat ob spoken s)))"
| "dispatch cfg Other ob s = calendar_text ob s (navigate_or_chat ob (said ob) s)"

definition step :: "settings \<Rightarrow> input \<times> observation \<Rightarrow> repl_state \<Rightarrow> outcome" where
  "step cfg ev s =
     (case fst ev of
        Eof \<Rightarrow> (Break, s, [])
      | Blank \<Rightarrow> (Continue, s, [])
      | Paused \<Rightarrow> (Continue, s\<lparr>voice_mode := False\<rparr>, [])
      | Line c \<Rightarrow> dispatch cfg c (snd ev) s)"

text \<open>
  The loop over a sequence of inputs; it stops at \<^verbatim>\<open>break\<close> and at an exception
  that leaves \<^verbatim>\<open>run_repl\<close>.
\<close>

fun run_loop :: "settings \<Rightarrow> (input \<times> observation) list \<Rightarrow> repl_state \<Rightarrow> outcome" where
  "run_loop cfg [] s = (Continue, s, [])"
| "run_loop cfg (ev # evs) s =
     (case step cfg ev s of
        (Continue, s', es) \<Rightarrow> after es (run_loop cfg evs s')
      | (Break, s', es) \<Rightarrow> (Break, s', es)
      | (Raised e, s', es) \<Rightarrow> (Raised e, s', es))"

text \<open>
  The part of \<^verbatim>\<open>run_repl\<close> before the loop. \<open>recognized\<close> is what the startup
  call of \<^verbatim>\<open>recognize_quick\<close> gives, \<open>store\<close> what \<^verbatim>\<open>load_profiles()\<close> gives.
\<close>

definition startup :: "settings \<Rightarrow> error + string option \<Rightarrow> profile_store \<Rightarrow> error + repl_state" where
  "startup cfg recognized_at_start store =
     (case attempt_auto_identity cfg recognized_at_start store of
        Inl e \<Rightarrow> Inl e
      | Inr (identity0, authed) \<Rightarrow>
          (let ident = (if identity0 \<notin> PERSONAS \<and> identity0 \<noteq> ''LOCKED'' then ''LOCKED''
                        else identity0);
               seed_key = (if ident \<in> PERSONAS then ident else ''Aldridge'');
               store1 = ensure_identity_struct store seed_key;
               tts_bucket = (if ident \<in> PERSONAS then ident else ''Aldridge'');
               store2 = ensure_identity_struct store1 tts_bucket;
               t = tts_of store2 tts_bucket
           in Inr \<lparr>identity = ident, profiles = store2, history = seed_chat_history seed_key,
                   tts_enabled = enabled t, tts_voice_index = voice_index t, tts_rate = rate t,
                   voice_mode = (VOICE_MODE_DEFAULT cfg \<and> stt_available cfg \<and> ident \<noteq> ''LOCKED''),
                   model = ''llama3.2:1b''\<rparr>))"

definition run_repl ::
  "settings \<Rightarrow> error + string option \<Rightarrow> profile_store \<Rightarrow> (input \<times> observation) list
     \<Rightarrow> error + outcome" where
  "run_repl cfg recognized_at_start store evs =
     (case startup cfg recognized_at_start store of
        Inl e \<Rightarrow> Inl e
      | Inr s0 \<Rightarrow> Inr (run_loop cfg evs s0))"

section \<open>Concrete configurations\<close>

text \<open>
  The defaults of \<^verbatim>\<open>config.py\<close> (no environment variable set), on a machine with
  OpenCV and without speech recognition.
\<close>

definition default_settings :: settings where
  "default_settings =
     \<lparr>STRICT_AUTH = True, AUTO_RECOG_ON_START = True, VOICE_MODE_DEFAULT = True,
      FACE_MIN_SIZE = 80, FACE_BLUR_THRESH = 100, FACE_MAX_BLUR = 600, FACE_DIST_THRESH = 2600,
      HAS_CV2 = True, stt_available = False\<rparr>"

text \<open>A face that passes the size and sharpness filters, with feature vector \<open>v\<close>.\<close>

definition sharp_face :: "'v \<Rightarrow> 'v face" where
  "sharp_face v = \<lparr>box_w = 100, box_h = 100, roi_size = 12100, fm = 300, roi100 = v\<rparr>"

text \<open>
  A dataset holding the single file \<open>name.npy\<close> with one enrolled vector, and a
  camera that shows that face in every frame; vectors are reals, their distance the
  absolute difference.
\<close>

definition enrolled_world :: "string \<Rightarrow> real camera_world" where
  "enrolled_world name =
     \<lparr>face_dataset = Some [(name @ ''.npy'', Matrix [0])],
      camera = Some (\<lambda>n. Some [sharp_face 0]),
      cascade_ok = True,
      euclid_dist = (\<lambda>a b. \<bar>a - b\<bar>)\<rparr>"

text \<open>
  The bank of one enrolled vector for Aldridge, and a bank of two labels \<open>A\<close> and
  \<open>B\<close> (vectors 0 and 100) with a camera that shows \<open>A\<close> in its first two frames
  and \<open>B\<close> from then on.
\<close>

definition aldridge_bank :: "(real \<times> int) list \<times> (int \<rightharpoonup> string)" where
  "aldridge_bank = ([(0, 0)], [0 \<mapsto> ''Aldridge''])"

definition two_label_bank :: "(real \<times> int) list \<times> (int \<rightharpoonup> string)" where
  "two_label_bank = ([(0, 0), (100, 1)], [0 \<mapsto> ''A'', 1 \<mapsto> ''B''])"

definition a_then_b :: "nat \<Rightarrow> real frame" where
  "a_then_b n = Some [sharp_face (if n < 2 then 0 else 100)]"

definition abs_dist :: "real \<Rightarrow> real \<Rightarrow> real" where
  "abs_dist a b = \<bar>a - b\<bar>"

definition empty_store :: profile_store where
  "empty_store = \<lparr>last_identity = None, entries = Map.empty\<rparr>"

text \<open>An iteration in which nothing is recognised, heard, matched or answered.\<close>

definition quiet :: observation where
  "quiet =
     \<lparr>recognized = Inr None, cal_words = False, cal_handled = False, heard = None,
      heard_cal_handled = False, nav_place = None, reply = None, said = []\<rparr>"

text \<open>The session \<^verbatim>\<open>run_repl\<close> starts in on the empty store when nothing is recognised.\<close>

definition locked_session :: repl_state where
  "locked_session =
     \<lparr>identity = ''LOCKED'', profiles = ensure_identity_struct empty_store ''Aldridge'',
      history = [SeedSystem ''Aldridge''], tts_enabled = True, tts_voice_index = None,
      tts_rate = None, voice_mode = False, model = ''llama3.2:1b''\<rparr>"

text \<open>
  Sessions of Aldridge and of Professor over a store in which both profiles were
  created with their defaults.
\<close>

definition session_of :: "string \<Rightarrow> repl_state" where
  "session_of ident =
     \<lparr>identity = ident,
      profiles = ensure_identity_struct (ensure_identity_struct empty_store ''Aldridge'') ''Professor'',
      history = [SeedSystem ident], tts_enabled = True, tts_voice_index = None,
      tts_rate = None, voice_mode = False, model = ''llama3.2:1b''\<rparr>"

section \<open>Properties of the classifier\<close>

lemma sort_key_Nil_iff: "sort_key f xs = [] \<longleftrightarrow> xs = []"
  by (metis length_sort length_0_conv)

lemma knn_dists_Nil_iff: "knn_dists d train x = [] \<longleftrightarrow> train = []"
  by (simp add: knn_dists_def sort_key_Nil_iff)

text \<open>The head of the sorted list of distances is the distance to the nearest vector.\<close>

lemma knn_dists_head:
  assumes "knn_dists d train x = d0 # rest"
  shows "fst d0 = nearest_dist d train x"
proof -
  let ?ds = "map (\<lambda>row. (d x (fst row), snd row)) train"
  have srt: "sorted (map fst (d0 # rest))"
    using assms sorted_sort_key [of fst ?ds] by (simp add: knn_dists_def)
  have st: "set (d0 # rest) = set ?ds"
    using assms set_sort [of fst ?ds] by (simp add: knn_dists_def)
  have img: "fst ` set (d0 # rest) = (\<lambda>row. d x (fst row)) ` set train"
    unfolding st by (simp add: image_image)
  have le: "\<forall>y \<in> fst ` set (d0 # rest). fst d0 \<le> y"
    using srt by auto
  have "Min (fst ` set (d0 # rest)) = fst d0"
    by (rule Min_eqI) (use le in auto)
  then show ?thesis
    unfolding nearest_dist_def img [symmetric] by simp
qed

lemma knn_unfold:
  assumes "train \<noteq> []"
  shows "knn d train x k thr =
     (if thr < nearest_dist d train x then Inr (- 1)
      else case np_argmax (np_unique_counts (knn_top d train x k)) of
               Inl e \<Rightarrow> Inl e
             | Inr i \<Rightarrow> Inr (np_unique_vals (knn_top d train x k) ! i))"
proof (cases "knn_dists d train x")
  case Nil
  then show ?thesis using assms by (simp add: knn_dists_Nil_iff)
next
  case (Cons d0 rest)
  then show ?thesis using knn_dists_head [OF Cons]
    by (simp add: knn_def Let_def)
qed

text \<open>\<^verbatim>\<open>np.argmax\<close> of a non-empty array: the first index holding the maximum.\<close>

lemma np_argmax_Inr:
  assumes "cs \<noteq> []"
  shows "\<exists>i. np_argmax cs = Inr i \<and> i < length cs \<and> cs ! i = Max (set cs)
           \<and> (\<forall>j<i. cs ! j < cs ! i)"
proof -
  let ?P = "\<lambda>c. c \<noteq> Max (set cs)"
  let ?i = "length (takeWhile ?P cs)"
  have mem: "Max (set cs) \<in> set cs" using assms by simp
  have lt: "?i < length cs"
  proof (rule ccontr)
    assume "\<not> ?i < length cs"
    then have "?i = length cs" using length_takeWhile_le [of ?P cs] by simp
    then have "takeWhile ?P cs = cs"
      by (metis takeWhile_dropWhile_id append_eq_conv_conj append_Nil2)
    then have "\<forall>c\<in>set cs. c \<noteq> Max (set cs)" by simp
    then show False using mem by blast
  qed
  have at: "cs ! ?i = Max (set cs)" using nth_length_takeWhile [OF lt] by simp
  have before: "\<forall>j<?i. cs ! j < cs ! ?i"
  proof (intro allI impI)
    fix j assume j: "j < ?i"
    then have "takeWhile ?P cs ! j \<in> set (takeWhile ?P cs)" by simp
    then have "?P (takeWhile ?P cs ! j)" by (metis set_takeWhileD)
    then have ne: "cs ! j \<noteq> Max (set cs)" using takeWhile_nth [OF j] by simp
    have "cs ! j \<in> set cs" using j lt by simp
    then have "cs ! j \<le> Max (set cs)" by simp
    then show "cs ! j < cs ! ?i" using ne at by simp
  qed
  show ?thesis using assms lt at before by (auto simp: np_argmax_def)
qed

lemma py_prefix_pos: "0 < k \<Longrightarrow> xs \<noteq> [] \<Longrightarrow> py_prefix k xs \<noteq> []"
  by (cases xs) (auto simp: py_prefix_def nat_eq_iff)

lemma set_py_prefix: "set (py_prefix k xs) \<subseteq> set xs"
  by (auto simp: py_prefix_def dest: in_set_takeD)

lemma knn_top_nonempty: "train \<noteq> [] \<Longrightarrow> 0 < k \<Longrightarrow> knn_top d train x k \<noteq> []"
  by (simp add: knn_top_def knn_neighbours_def py_prefix_pos knn_dists_Nil_iff)

lemma set_knn_top: "set (knn_top d train x k) \<subseteq> snd ` set train"
proof
  fix l assume "l \<in> set (knn_top d train x k)"
  then obtain p where p: "p \<in> set (py_prefix k (knn_dists d train x))" "l = snd p"
    by (auto simp: knn_top_def knn_neighbours_def)
  have "set (py_prefix k (knn_dists d train x)) \<subseteq> set (knn_dists d train x)"
    by (rule set_py_prefix)
  also have "\<dots> = (\<lambda>row. (d x (fst row), snd row)) ` set train"
    by (simp add: knn_dists_def)
  finally obtain row where "row \<in> set train" "p = (d x (fst row), snd row)"
    using p(1) by auto
  then show "l \<in> snd ` set train" using p(2) by simp
qed

lemma unique_vals_props:
  "set (np_unique_vals t) = set t" "sorted (np_unique_vals t)"
  "length (np_unique_counts t) = length (np_unique_vals t)"
  by (simp_all add: np_unique_vals_def np_unique_counts_def)

text \<open>
  What \<^verbatim>\<open>vals[np.argmax(counts)]\<close> is: a label of the list with the greatest
  count and, among the labels with that count, the least one.
\<close>

lemma vote_winner:
  assumes ne: "t \<noteq> []"
  shows "\<exists>i. np_argmax (np_unique_counts t) = Inr i \<and> i < length (np_unique_vals t)
     \<and> np_unique_vals t ! i \<in> set t
     \<and> (\<forall>l. count_list t l \<le> count_list t (np_unique_vals t ! i))
     \<and> (\<forall>l. l \<in> set t \<and> count_list t l = count_list t (np_unique_vals t ! i)
            \<longrightarrow> np_unique_vals t ! i \<le> l)"
proof -
  let ?vs = "np_unique_vals t" and ?cs = "np_unique_counts t"
  have vne: "?vs \<noteq> []" using ne unique_vals_props(1) [of t] by auto
  then have cne: "?cs \<noteq> []" by (simp add: np_unique_counts_def)
  from np_argmax_Inr [OF cne] obtain i where
    i: "np_argmax ?cs = Inr i" "i < length ?cs" "?cs ! i = Max (set ?cs)"
       "\<forall>j<i. ?cs ! j < ?cs ! i"
    by blast
  have len: "length ?cs = length ?vs" by (rule unique_vals_props(3))
  have ci: "\<And>j. j < length ?vs \<Longrightarrow> ?cs ! j = count_list t (?vs ! j)"
    by (simp add: np_unique_counts_def)
  have mem: "?vs ! i \<in> set t" using i(2) len unique_vals_props(1) [of t] nth_mem by metis
  have max: "count_list t l \<le> count_list t (?vs ! i)" for l
  proof (cases "l \<in> set t")
    case True
    then have "l \<in> set ?vs" by (simp add: unique_vals_props(1))
    then obtain j where j: "j < length ?vs" "?vs ! j = l" by (auto simp: in_set_conv_nth)
    then have "?cs ! j \<in> set ?cs" using len by simp
    then have "?cs ! j \<le> Max (set ?cs)" by simp
    then show ?thesis using i(2,3) j ci len by simp
  next
    case False
    then show ?thesis by (simp add: count_list_0_iff)
  qed
  have least: "?vs ! i \<le> l"
    if l: "l \<in> set t" and eq: "count_list t l = count_list t (?vs ! i)" for l
  proof -
    from l have "l \<in> set ?vs" by (simp add: unique_vals_props(1))
    then obtain j where j: "j < length ?vs" "?vs ! j = l" by (auto simp: in_set_conv_nth)
    have "\<not> j < i"
    proof
      assume "j < i"
      then have "?cs ! j < ?cs ! i" using i(4) by blast
      then show False using ci j i(2) len eq by simp
    qed
    then have "i \<le> j" by simp
    then show ?thesis using sorted_nth_mono [OF unique_vals_props(2), of i j t] j by simp
  qed
  show ?thesis using i(1,2) len mem max least by auto
qed

text \<open>
  C5. For a non-empty bank: if the distance from the sample to its nearest bank
  vector exceeds the threshold, \<open>knn\<close> returns the rejection value \<open>-1\<close> whatever
  \<open>k\<close> and the labels of the other neighbours are; if the nearest distance is within
  the threshold (and \<open>k\<close> is at least one), it returns a label of the bank.
\<close>

theorem knn_rejects_by_nearest_distance:
  "train \<noteq> [] \<Longrightarrow>
     (thr < nearest_dist d train x \<longrightarrow> knn d train x k thr = Inr (- 1)) \<and>
     (\<not> thr < nearest_dist d train x \<and> 0 < k \<longrightarrow>
        (\<exists>lbl. lbl \<in> snd ` set train \<and> knn d train x k thr = Inr lbl))"
proof (intro conjI impI)
  assume "train \<noteq> []" "thr < nearest_dist d train x"
  then show "knn d train x k thr = Inr (- 1)" by (simp add: knn_unfold)
next
  assume ne: "train \<noteq> []" and h: "\<not> thr < nearest_dist d train x \<and> 0 < k"
  from vote_winner [OF knn_top_nonempty [OF ne, of k d x]] h obtain i where
    i: "np_argmax (np_unique_counts (knn_top d train x k)) = Inr i"
       "np_unique_vals (knn_top d train x k) ! i \<in> set (knn_top d train x k)"
    by blast
  have "knn d train x k thr = Inr (np_unique_vals (knn_top d train x k) ! i)"
    using ne h i(1) by (simp add: knn_unfold)
  moreover have "np_unique_vals (knn_top d train x k) ! i \<in> snd ` set train"
    using i(2) set_knn_top [of d train x k] by (rule subsetD [rotated])
  ultimately show "\<exists>lbl. lbl \<in> snd ` set train \<and> knn d train x k thr = Inr lbl" by blast
qed

text \<open>
  The two scenarios of the specification: the bank loaded from the single file
  \<^verbatim>\<open>Aldridge.npy\<close> with one vector, threshold 2600 and \<open>k = 1\<close>. At distance 50 the
  class id of Aldridge is returned, at distance 5000 the sample is rejected.
\<close>

theorem knn_rejects_by_nearest_distance_witness:
  "load_face_bank True (Some [(''Aldridge.npy'', Matrix [0::real])])
       = Some ([(0, 0)], [0 \<mapsto> ''Aldridge''])
   \<and> [(0::real, 0::int)] \<noteq> []
   \<and> (2600::real) < nearest_dist (\<lambda>a b. \<bar>a - b\<bar>) [(0::real, 0)] 5000
   \<and> knn (\<lambda>a b. \<bar>a - b\<bar>) [(0::real, 0)] 5000 1 (2600::real) = Inr (- 1)
   \<and> \<not> (2600::real) < nearest_dist (\<lambda>a b. \<bar>a - b\<bar>) [(0::real, 0)] 50
   \<and> knn (\<lambda>a b. \<bar>a - b\<bar>) [(0::real, 0)] 50 1 (2600::real) = Inr 0"
proof -
  let ?d = "\<lambda>a b :: real. \<bar>a - b\<bar>"
  have bank: "load_face_bank True (Some [(''Aldridge.npy'', Matrix [0::real])])
       = Some ([(0, 0)], [0 \<mapsto> ''Aldridge''])"
    by (simp add: load_face_bank_def py_prefix_def suffix_def)
  have ne: "[(0::real, 0::int)] \<noteq> []" by simp
  have far: "(2600::real) < nearest_dist ?d [(0::real, 0)] 5000"
    by (simp add: nearest_dist_def)
  have near: "\<not> (2600::real) < nearest_dist ?d [(0::real, 0)] 50"
    by (simp add: nearest_dist_def)
  note both = knn_rejects_by_nearest_distance [OF ne, of 2600 ?d _ 1]
  have rej: "knn ?d [(0::real, 0)] 5000 1 (2600::real) = Inr (- 1)"
    using both [of 5000] far by blast
  have "\<exists>lbl. lbl \<in> snd ` set [(0::real, 0::int)] \<and> knn ?d [(0::real, 0)] 50 1 (2600::real) = Inr lbl"
    using both [of 50] near by simp
  then have acc: "knn ?d [(0::real, 0)] 50 1 (2600::real) = Inr 0" by simp
  show ?thesis by (intro conjI bank ne far rej near acc)
qed






text \<open>
  C7, as the code has it. For a sample that is not rejected (non-empty bank, nearest
  distance within the threshold, \<open>k\<close> at least one) \<open>knn\<close> returns a label that is
  most frequent among the \<open>k\<close> nearest neighbours, and among the labels tied for
  most frequent it returns the one with the smallest class id.
\<close>

theorem knn_majority_smallest_class_id:
  assumes "train \<noteq> []" and "0 < k" and "\<not> thr < nearest_dist d train x"
  shows "\<exists>r. knn d train x k thr = Inr r \<and> r \<in> set (knn_top d train x k)
     \<and> (\<forall>l. count_list (knn_top d train x k) l \<le> count_list (knn_top d train x k) r)
     \<and> (\<forall>l. l \<in> set (knn_top d train x k)
              \<and> count_list (knn_top d train x k) l = count_list (knn_top d train x k) r
            \<longrightarrow> r \<le> l)"
proof -
  let ?t = "knn_top d train x k"
  from vote_winner [OF knn_top_nonempty [OF assms(1,2), of d x]] obtain i where
    i: "np_argmax (np_unique_counts ?t) = Inr i"
       "np_unique_vals ?t ! i \<in> set ?t"
       "\<forall>l. count_list ?t l \<le> count_list ?t (np_unique_vals ?t ! i)"
       "\<forall>l. l \<in> set ?t \<and> count_list ?t l = count_list ?t (np_unique_vals ?t ! i)
           \<longrightarrow> np_unique_vals ?t ! i \<le> l"
    by blast
  have "knn d train x k thr = Inr (np_unique_vals ?t ! i)"
    using assms i(1) by (simp add: knn_unfold)
  then show ?thesis using i(2,3,4) by blast
qed

text \<open>
  Two labels tied at one vote each among the two nearest neighbours: label 1 at
  distance 10, label 0 at distance 20. The code returns label 0.
\<close>

theorem knn_majority_smallest_class_id_witness:
  "[(20::real, 0::int), (10, 1)] \<noteq> [] \<and> (0::int) < 2
   \<and> \<not> (100::real) < nearest_dist (\<lambda>a b. \<bar>a - b\<bar>) [(20::real, 0), (10, 1)] 0
   \<and> knn (\<lambda>a b. \<bar>a - b\<bar>) [(20::real, 0), (10, 1)] 0 2 (100::real) = Inr 0"
proof -
  let ?d = "\<lambda>a b :: real. \<bar>a - b\<bar>"
  let ?train = "[(20::real, 0::int), (10, 1)]"
  have ne: "?train \<noteq> []" by simp
  have k: "(0::int) < 2" by simp
  have near: "\<not> (100::real) < nearest_dist ?d ?train 0" by (simp add: nearest_dist_def)
  have top: "knn_top ?d ?train 0 2 = [1, 0]"
    by (simp add: knn_top_def knn_neighbours_def knn_dists_def py_prefix_def)
  from knn_majority_smallest_class_id [OF ne k near] obtain r where
    r: "knn ?d ?train 0 2 100 = Inr r"
       "\<forall>l. l \<in> set (knn_top ?d ?train 0 2)
              \<and> count_list (knn_top ?d ?train 0 2) l = count_list (knn_top ?d ?train 0 2) r
            \<longrightarrow> r \<le> l"
       "r \<in> set (knn_top ?d ?train 0 2)"
    by blast
  from r(3) have r01: "r = 0 \<or> r = 1" unfolding top by auto
  from r(2) [rule_format, of 0] r01 have "r \<le> 0" unfolding top by auto
  with r01 have "r = 0" by auto
  with r(1) have res: "knn ?d ?train 0 2 100 = Inr 0" by simp
  show ?thesis by (intro conjI ne k near res)
qed

text \<open>
  The claim as the specification words it fails there: the labels 0 and 1 are tied,
  label 1 has both the smaller summed distance and the smaller nearest distance,
  and the code returns label 0.
\<close>

theorem knn_tie_not_broken_by_distance:
  "knn (\<lambda>a b. \<bar>a - b\<bar>) [(20::real, 0), (10, 1)] 0 2 (100::real) = Inr 0
   \<and> count_list (knn_top (\<lambda>a b. \<bar>a - b\<bar>) [(20::real, 0), (10, 1)] 0 2) 1
       = count_list (knn_top (\<lambda>a b. \<bar>a - b\<bar>) [(20::real, 0), (10, 1)] 0 2) 0
   \<and> label_dist_sum (knn_neighbours (\<lambda>a b. \<bar>a - b\<bar>) [(20::real, 0), (10, 1)] 0 2) 1
       < label_dist_sum (knn_neighbours (\<lambda>a b. \<bar>a - b\<bar>) [(20::real, 0), (10, 1)] 0 2) 0
   \<and> label_dist_min (knn_neighbours (\<lambda>a b. \<bar>a - b\<bar>) [(20::real, 0), (10, 1)] 0 2) 1
       < label_dist_min (knn_neighbours (\<lambda>a b. \<bar>a - b\<bar>) [(20::real, 0), (10, 1)] 0 2) 0"
  by (simp add: knn_def knn_dists_def knn_top_def knn_neighbours_def py_prefix_def
      np_argmax_def np_unique_counts_def np_unique_vals_def label_dist_sum_def label_dist_min_def)

text \<open>
  C9. Rejection is monotonic in the threshold: a sample rejected at a threshold is
  rejected at every smaller threshold, the bank, the sample and \<open>k\<close> unchanged.
\<close>

theorem knn_rejection_monotone:
  "knn d train x k thr = Inr (- 1) \<Longrightarrow> thr' < thr \<Longrightarrow> knn d train x k thr' = Inr (- 1)"
  unfolding knn_def
  by (auto split: list.splits if_splits simp: Let_def)

theorem knn_rejection_monotone_witness:
  "knn (\<lambda>a b. \<bar>a - b\<bar>) [(0::real, 0)] 5000 1 (2600::real) = Inr (- 1)
   \<and> (100::real) < 2600
   \<and> knn (\<lambda>a b. \<bar>a - b\<bar>) [(0::real, 0)] 5000 1 (100::real) = Inr (- 1)"
proof -
  have h1: "knn (\<lambda>a b. \<bar>a - b\<bar>) [(0::real, 0)] 5000 1 (2600::real) = Inr (- 1)"
    by (simp add: knn_def knn_dists_def)
  have h2: "(100::real) < 2600" by simp
  from knn_rejection_monotone [OF h1 h2] have h3:
    "knn (\<lambda>a b. \<bar>a - b\<bar>) [(0::real, 0)] 5000 1 (100::real) = Inr (- 1)" .
  show ?thesis by (intro conjI h1 h2 h3)
qed

section \<open>Properties of the session\<close>

lemma locked_not_persona: "locked_like ident \<Longrightarrow> ident \<notin> PERSONAS"
  by (auto simp: locked_like_def PERSONAS_def)

lemma calendar_text_locked:
  assumes "locked_like (identity s)"
  shows "calendar_text ob s rest =
     (if cal_words ob then (Continue, s, [Refused LockedGuestCalendar]) else rest)"
  using assms by (simp add: calendar_text_def)

lemma navigate_or_chat_locked:
  assumes "locked_like (identity s)"
  shows "\<forall>e \<in> set (snd (snd (navigate_or_chat ob user s))). \<not> sensitive e"
  using assms by (auto simp: navigate_or_chat_def split: option.splits)

text \<open>While locked or guest, no branch of the loop body performs a sensitive operation.\<close>

lemma dispatch_locked_not_sensitive:
  assumes "locked_like (identity s)"
  shows "\<forall>e \<in> set (snd (snd (dispatch cfg c ob s))). \<not> sensitive e"
proof (cases c)
  case Mic
  then show ?thesis using assms navigate_or_chat_locked [OF assms]
    by (auto simp: calendar_text_locked split: option.splits)
next
  case Other
  then show ?thesis using assms navigate_or_chat_locked [OF assms]
    by (auto simp: calendar_text_locked)
qed (use assms in \<open>auto simp: calendar_text_locked locked_not_persona Let_def
       split: option.splits sum.splits\<close>)

lemma navigate_or_chat_locked_indep:
  assumes "locked_like (identity s)"
  shows "fst (navigate_or_chat ob user (s\<lparr>profiles := store'\<rparr>)) = fst (navigate_or_chat ob user s)
    \<and> snd (snd (navigate_or_chat ob user (s\<lparr>profiles := store'\<rparr>)))
        = snd (snd (navigate_or_chat ob user s))"
  using assms by (auto simp: navigate_or_chat_def split: option.splits)

text \<open>While locked or guest, what the loop body does is the same for every store.\<close>

lemma dispatch_locked_indep:
  assumes "locked_like (identity s)"
  shows "fst (dispatch cfg c ob (s\<lparr>profiles := store'\<rparr>)) = fst (dispatch cfg c ob s)
    \<and> snd (snd (dispatch cfg c ob (s\<lparr>profiles := store'\<rparr>))) = snd (snd (dispatch cfg c ob s))"
proof (cases c)
  case Mic
  then show ?thesis using assms navigate_or_chat_locked_indep [OF assms]
    by (auto simp: calendar_text_locked split: option.splits)
next
  case Other
  then show ?thesis using assms navigate_or_chat_locked_indep [OF assms]
    by (auto simp: calendar_text_locked)
qed (use assms in \<open>auto simp: calendar_text_locked locked_not_persona Let_def
       split: option.splits sum.splits\<close>)

text \<open>
  The gate the loop has: while the identity is \<^verbatim>\<open>LOCKED\<close> or \<^verbatim>\<open>guest\<close>, an
  iteration, on any input, performs no sensitive operation, and its status and its
  effects are the same whatever the store holds.
\<close>

lemma locked_like_denies_sensitive:
  assumes "locked_like (identity s)"
  shows "(\<forall>e \<in> set (snd (snd (step cfg ev s))). \<not> sensitive e)
       \<and> fst (step cfg ev (s\<lparr>profiles := store'\<rparr>)) = fst (step cfg ev s)
       \<and> snd (snd (step cfg ev (s\<lparr>profiles := store'\<rparr>))) = snd (snd (step cfg ev s))"
  using dispatch_locked_not_sensitive [OF assms] dispatch_locked_indep [OF assms]
  by (auto simp: step_def split: input.splits)

section \<open>The identity Guest\<close>

lemma bank_of_guest:
  "load_face_bank True (Some [(''Guest.npy'', Matrix [0::real])])
     = Some ([(0, 0)], [0 \<mapsto> ''Guest''])"
  by (simp add: load_face_bank_def py_prefix_def suffix_def)

lemma knn_single_vector:
  "knn (\<lambda>a b. \<bar>a - b\<bar>) [(0::real, 0)] 0 5 (2600::real) = Inr 0"
  by (simp add: knn_def knn_dists_def knn_top_def knn_neighbours_def py_prefix_def
      np_argmax_def np_unique_counts_def np_unique_vals_def)

text \<open>
  With a face enrolled under the name Guest (\<^verbatim>\<open>/setup_profile Guest\<close> writes
  \<^verbatim>\<open>face_dataset/Guest.npy\<close>) and that face before the camera, the recognition
  attempt returns the label Guest after five frames.
\<close>

lemma recognize_enrolled_guest:
  "recognize_quick default_settings (enrolled_world ''Guest'') 250 5 5 = Inr (Some ''Guest'')"
  by (simp add: recognize_quick_def recognize_run_def enrolled_world_def default_settings_def
      bank_of_guest frames_loop.simps sharp_face_def knn_single_vector votes_get_def)

lemma startup_locked: "startup default_settings (Inr None) empty_store = Inr locked_session"
  by (simp add: startup_def attempt_auto_identity_def default_settings_def locked_session_def
      PERSONAS_def seed_chat_history_def ensure_identity_struct_def empty_store_def
      empty_profile_def tts_of_def default_tts_def Let_def)

text \<open>
  C1 says that in a Locked or Guest session the permission check before a sensitive
  operation is false and the persisted flag is never consulted. The code, evaluated
  from a start on the empty store: Aldridge logs in, enters
  \<^verbatim>\<open>/grant_calendar Guest\<close> and locks; \<^verbatim>\<open>/recognize\<close> with the label Guest
  recognised makes Guest the identity, which the gate does not count as locked or
  guest; \<^verbatim>\<open>/agenda\<close> then evaluates the stored flag of Guest and lists the
  calendar. Without the grant the same \<^verbatim>\<open>/agenda\<close> evaluates the flag and is
  refused by it: the stored flag decides.
\<close>

theorem guest_identity_passes_gate:
  "map_sum id (\<lambda>out. (fst out, identity (fst (snd out)), locked_like (identity (fst (snd out))),
                        calendar_flag (profiles (fst (snd out))) ''Guest'', snd (snd out)))
     (run_repl default_settings (Inr None) empty_store
        [(Line (Login ''Aldridge''), quiet), (Line (GrantCalendar ''Guest''), quiet),
         (Line Lock, quiet),
         (Line Recognize,
          quiet\<lparr>recognized := recognize_quick default_settings (enrolled_world ''Guest'') 250 5 5\<rparr>),
         (Line Agenda, quiet)])
     = Inr (Continue, ''Guest'', False, Some True,
            [SaveProfiles, SaveProfiles, SaveProfiles,
             ReadCalendarPermission ''Guest'', ListUpcoming ''Guest''])
   \<and> map_sum id (\<lambda>out. (fst out, identity (fst (snd out)), locked_like (identity (fst (snd out))),
                        calendar_flag (profiles (fst (snd out))) ''Guest'', snd (snd out)))
     (run_repl default_settings (Inr None) empty_store
        [(Line Recognize,
          quiet\<lparr>recognized := recognize_quick default_settings (enrolled_world ''Guest'') 250 5 5\<rparr>),
         (Line Agenda, quiet)])
     = Inr (Continue, ''Guest'', False, Some False,
            [SaveProfiles, ReadCalendarPermission ''Guest'', Refused NoCalendarAccess])"
  unfolding recognize_enrolled_guest run_repl_def startup_locked
  by (simp add: step_def after_def str_lower_def lower_char_def
      PERSONAS_def default_settings_def log_in_as_def Let_def locked_like_def
      has_calendar_permission_def calendar_flag_def set_calendar_def ensure_identity_struct_def
      locked_session_def empty_store_def empty_profile_def tts_of_def default_tts_def
      seed_chat_history_def quiet_def)

text \<open>
  C2 says that no sequence of commands makes Guest the principal of an
  authenticated session. The code, evaluated: \<^verbatim>\<open>/login Guest\<close> is refused, but
  \<^verbatim>\<open>/recognize\<close> with the label Guest recognised makes Guest the session's
  identity; the session is then neither locked nor guest, and \<^verbatim>\<open>/places\<close> reads
  the saved places of Guest.
\<close>

theorem recognize_enters_guest_identity:
  "run_repl default_settings (Inr None) empty_store [(Line (Login ''Guest''), quiet)]
     = Inr (Continue, locked_session, [Refused LoginTargetNotAllowed])
   \<and> recognize_quick default_settings (enrolled_world ''Guest'') 250 5 5 = Inr (Some ''Guest'')
   \<and> map_sum id (\<lambda>out. (identity (fst (snd out)), locked_like (identity (fst (snd out))),
                          snd (snd out)))
       (run_repl default_settings (Inr None) empty_store
          [(Line Recognize,
            quiet\<lparr>recognized := recognize_quick default_settings (enrolled_world ''Guest'') 250 5 5\<rparr>),
           (Line Places, quiet)])
     = Inr (''Guest'', False,
            [SaveProfiles, ReadCalendarPermission ''Guest'', ReadPlaces ''Guest''])"
proof -
  have start: "startup default_settings (Inr None) empty_store = Inr locked_session"
    by (simp add: startup_def attempt_auto_identity_def default_settings_def locked_session_def
        PERSONAS_def seed_chat_history_def ensure_identity_struct_def empty_store_def
        empty_profile_def tts_of_def default_tts_def Let_def)
  have login: "step default_settings (Line (Login ''Guest''), quiet) locked_session
      = (Continue, locked_session, [Refused LoginTargetNotAllowed])"
    by (simp add: step_def str_lower_def lower_char_def)
  have rec: "step default_settings
        (Line Recognize, quiet\<lparr>recognized := Inr (Some ''Guest'')\<rparr>) locked_session
      = (Continue, log_in_as default_settings ''Guest'' locked_session, [SaveProfiles])"
    by (simp add: step_def default_settings_def PERSONAS_def)
  have ident: "identity (log_in_as default_settings ''Guest'' locked_session) = ''Guest''"
    by (simp add: log_in_as_def Let_def)
  have noperm: "\<not> has_calendar_permission ''Guest''
      (profiles (log_in_as default_settings ''Guest'' locked_session))"
    by (simp add: log_in_as_def Let_def has_calendar_permission_def ensure_identity_struct_def
        locked_session_def empty_store_def empty_profile_def)
  have plc: "step default_settings (Line Places, quiet)
        (log_in_as default_settings ''Guest'' locked_session)
      = (Continue, log_in_as default_settings ''Guest'' locked_session,
         [ReadCalendarPermission ''Guest'', ReadPlaces ''Guest''])"
    using ident noperm
    by (simp add: step_def calendar_text_def locked_like_def after_def quiet_def)
  show ?thesis
    unfolding recognize_enrolled_guest
    by (simp add: run_repl_def start login rec plc ident after_def locked_like_def)
qed

text \<open>
  In strict mode \<^verbatim>\<open>attempt_auto_identity\<close> authenticates exactly the recognised
  labels that are keys of \<^verbatim>\<open>PERSONAS\<close>, and returns \<^verbatim>\<open>LOCKED\<close> otherwise.
\<close>

lemma attempt_auto_identity_strict:
  assumes "STRICT_AUTH cfg"
  shows "attempt_auto_identity cfg (Inr who) store =
     Inr (case who of
            None \<Rightarrow> (''LOCKED'', False)
          | Some name \<Rightarrow>
              if HAS_CV2 cfg \<and> name \<noteq> [] \<and> name \<in> PERSONAS then (name, True)
              else (''LOCKED'', False))"
  using assms by (simp add: attempt_auto_identity_def split: option.splits)

text \<open>
  C3 says that in strict mode the startup decision authenticates a recognised
  persona and is never Guest. The code, evaluated with the label Guest recognised
  at startup: \<^verbatim>\<open>attempt_auto_identity\<close> returns Guest as an authenticated identity
  and the session starts as Guest, while
  \<^verbatim>\<open>choose_identity_from_faces_or_fallback\<close> returns \<^verbatim>\<open>LOCKED\<close> on the same
  recognition, by its test \<^verbatim>\<open>who.lower() != "guest"\<close>.
\<close>

theorem strict_startup_with_guest_label:
  "attempt_auto_identity default_settings
       (recognize_quick default_settings (enrolled_world ''Guest'') 250 5 5) store
     = Inr (''Guest'', True)
   \<and> map_sum id identity
       (startup default_settings
          (recognize_quick default_settings (enrolled_world ''Guest'') 250 5 5) store)
     = Inr ''Guest''
   \<and> choose_identity_from_faces_or_fallback default_settings True
       (recognize_quick default_settings (enrolled_world ''Guest'') 250 5 5)
       (ensure_identity_struct store ''Guest'')
     = Inr (''LOCKED'', False)"
  unfolding recognize_enrolled_guest
  by (simp add: attempt_auto_identity_def startup_def
      choose_identity_from_faces_or_fallback_def default_settings_def PERSONAS_def
      in_profiles_def ensure_identity_struct_def str_lower_def lower_char_def Let_def)

section \<open>The calendar permission\<close>

lemma ensure_default_flag:
  "stored_permissions store ident = None \<Longrightarrow>
     calendar_flag (ensure_identity_struct store ident) ident = Some (ident = ''Aldridge'')"
  by (auto simp: stored_permissions_def calendar_flag_def ensure_identity_struct_def Let_def
      empty_profile_def split: option.splits)

lemma flag_has_permission:
  "has_calendar_permission ident store = (calendar_flag store ident = Some True)"
  by (auto simp: has_calendar_permission_def calendar_flag_def split: option.splits)

lemma ensure_keeps_flag:
  "calendar_flag store t = Some b \<Longrightarrow> calendar_flag (ensure_identity_struct store i) t = Some b"
  by (auto simp: calendar_flag_def ensure_identity_struct_def Let_def split: option.splits)

lemma last_identity_keeps_flag [simp]:
  "calendar_flag (store\<lparr>last_identity := x\<rparr>) t = calendar_flag store t"
  by (simp add: calendar_flag_def)

lemma set_tts_keeps_flag [simp]:
  "calendar_flag (set_tts store i v) t = calendar_flag store t"
  by (auto simp: calendar_flag_def set_tts_def split: option.splits)

lemma set_place_keeps_flag [simp]:
  "calendar_flag (set_place store i k v) t = calendar_flag store t"
  by (auto simp: calendar_flag_def set_place_def split: option.splits)

lemma set_calendar_other:
  "t \<noteq> i \<Longrightarrow> calendar_flag (set_calendar store i v) t = calendar_flag store t"
  by (auto simp: calendar_flag_def set_calendar_def split: option.splits)

lemma set_calendar_after_ensure:
  "calendar_flag (set_calendar (ensure_identity_struct store i) i v) i = Some v"
  by (auto simp: calendar_flag_def set_calendar_def ensure_identity_struct_def Let_def
      empty_profile_def split: option.splits)

lemma log_in_keeps_flag:
  "calendar_flag (profiles s) t = Some b \<Longrightarrow>
     calendar_flag (profiles (log_in_as cfg who s)) t = Some b"
  by (simp add: log_in_as_def Let_def ensure_keeps_flag)

lemma navigate_or_chat_profiles [simp]:
  "profiles (fst (snd (navigate_or_chat ob user s))) = profiles s"
  by (auto simp: navigate_or_chat_def split: option.splits)

lemma after_state [simp]: "fst (snd (after es rest)) = fst (snd rest)"
  by (cases rest) (simp add: after_def)

lemma calendar_text_keeps_flag:
  assumes "calendar_flag (profiles s) t = Some b"
      and "calendar_flag (profiles (fst (snd rest))) t = Some b"
  shows "calendar_flag (profiles (fst (snd (calendar_text ob s rest)))) t = Some b"
  using assms by (simp add: calendar_text_def)

text \<open>
  A stored calendar flag survives every branch of the loop body, but the grant and
  the revoke of that persona's flag in a session of Aldridge.
\<close>

lemma dispatch_keeps_flag:
  assumes "calendar_flag (profiles s) t = Some b"
      and "\<not> (identity s = ''Aldridge'' \<and> (c = GrantCalendar t \<or> c = RevokeCalendar t))"
  shows "calendar_flag (profiles (fst (snd (dispatch cfg c ob s)))) t = Some b"
proof (cases c)
  case (GrantCalendar target)
  then show ?thesis using assms
    by (cases "t = target") (auto simp: ensure_keeps_flag set_calendar_other)
next
  case (RevokeCalendar target)
  then show ?thesis using assms
    by (cases "t = target") (auto simp: ensure_keeps_flag set_calendar_other)
next
  case (Nav key)
  then show ?thesis using assms by (auto intro!: calendar_text_keeps_flag split: option.splits)
next
  case (SetPlace parsed)
  then show ?thesis using assms
    by (auto intro!: calendar_text_keeps_flag simp: ensure_keeps_flag split: option.splits)
next
  case Places
  then show ?thesis using assms by (auto intro!: calendar_text_keeps_flag)
next
  case Mic
  then show ?thesis using assms by (auto intro!: calendar_text_keeps_flag split: option.splits)
next
  case Other
  then show ?thesis using assms by (auto intro!: calendar_text_keeps_flag)
qed (use assms in \<open>auto simp: ensure_keeps_flag log_in_keeps_flag Let_def
       split: option.splits sum.splits\<close>)

text \<open>
  C10. When \<^verbatim>\<open>ensure_identity_struct\<close> creates the permissions of an identity,
  the calendar flag is true exactly for Aldridge. A calendar flag that is stored is
  changed by an iteration of the loop only if the session's identity is Aldridge
  and the input is the grant or the revoke command for that persona; in a session
  of Aldridge the two commands set the flag of a defined persona to true and to
  false.
\<close>

theorem calendar_permission_default_and_change:
  "(stored_permissions store ident = None \<longrightarrow>
      calendar_flag (ensure_identity_struct store ident) ident = Some (ident = ''Aldridge'')
      \<and> has_calendar_permission ident (ensure_identity_struct store ident) = (ident = ''Aldridge''))
   \<and> (calendar_flag (profiles s) target = Some b
        \<and> calendar_flag (profiles (fst (snd (step cfg ev s)))) target \<noteq> Some b \<longrightarrow>
      identity s = ''Aldridge''
      \<and> (fst ev = Line (GrantCalendar target) \<or> fst ev = Line (RevokeCalendar target)))
   \<and> (identity s = ''Aldridge'' \<and> target \<in> PERSONAS \<longrightarrow>
      calendar_flag (profiles (fst (snd (step cfg (Line (GrantCalendar target), ob) s)))) target
        = Some True
      \<and> calendar_flag (profiles (fst (snd (step cfg (Line (RevokeCalendar target), ob) s)))) target
        = Some False)"
proof (intro conjI impI)
  assume "stored_permissions store ident = None"
  then show "calendar_flag (ensure_identity_struct store ident) ident = Some (ident = ''Aldridge'')"
    by (rule ensure_default_flag)
  then show "has_calendar_permission ident (ensure_identity_struct store ident)
      = (ident = ''Aldridge'')"
    by (simp add: flag_has_permission)
next
  assume h: "calendar_flag (profiles s) target = Some b
        \<and> calendar_flag (profiles (fst (snd (step cfg ev s)))) target \<noteq> Some b"
  have *: "identity s = ''Aldridge''
      \<and> (fst ev = Line (GrantCalendar target) \<or> fst ev = Line (RevokeCalendar target))"
  proof (cases "fst ev")
    case (Line c)
    then show ?thesis using h dispatch_keeps_flag [of s target b c cfg "snd ev"]
      by (auto simp: step_def)
  qed (use h in \<open>auto simp: step_def calendar_flag_def\<close>)
  from * show "identity s = ''Aldridge''" by simp
  from * show "fst ev = Line (GrantCalendar target) \<or> fst ev = Line (RevokeCalendar target)"
    by simp
next
  assume "identity s = ''Aldridge'' \<and> target \<in> PERSONAS"
  then show "calendar_flag
      (profiles (fst (snd (step cfg (Line (GrantCalendar target), ob) s)))) target = Some True"
    by (simp add: step_def set_calendar_after_ensure)
next
  assume "identity s = ''Aldridge'' \<and> target \<in> PERSONAS"
  then show "calendar_flag
      (profiles (fst (snd (step cfg (Line (RevokeCalendar target), ob) s)))) target = Some False"
    by (simp add: step_def set_calendar_after_ensure)
qed

text \<open>
  On the empty store the profile of Aldridge is created with the calendar granted
  and that of Professor without it. In a session of Aldridge
  \<^verbatim>\<open>/grant_calendar Professor\<close> changes the flag of Professor; in a session of
  Professor the same command leaves it as it is.
\<close>

theorem calendar_permission_default_and_change_witness:
  "stored_permissions empty_store ''Aldridge'' = None
   \<and> has_calendar_permission ''Aldridge'' (ensure_identity_struct empty_store ''Aldridge'')
   \<and> stored_permissions empty_store ''Professor'' = None
   \<and> \<not> has_calendar_permission ''Professor'' (ensure_identity_struct empty_store ''Professor'')
   \<and> calendar_flag (profiles (session_of ''Aldridge'')) ''Professor'' = Some False
   \<and> identity (session_of ''Aldridge'') = ''Aldridge'' \<and> ''Professor'' \<in> PERSONAS
   \<and> calendar_flag (profiles (fst (snd (step default_settings
         (Line (GrantCalendar ''Professor''), quiet) (session_of ''Aldridge''))))) ''Professor''
       = Some True
   \<and> calendar_flag (profiles (session_of ''Professor'')) ''Professor'' = Some False
   \<and> calendar_flag (profiles (fst (snd (step default_settings
         (Line (GrantCalendar ''Professor''), quiet) (session_of ''Professor''))))) ''Professor''
       = Some False"
proof -
  note main = calendar_permission_default_and_change
  have a0: "stored_permissions empty_store ''Aldridge'' = None"
    by (simp add: stored_permissions_def empty_store_def)
  have p0: "stored_permissions empty_store ''Professor'' = None"
    by (simp add: stored_permissions_def empty_store_def)
  from main [of empty_store "''Aldridge''", THEN conjunct1, rule_format, OF a0]
  have a1: "has_calendar_permission ''Aldridge'' (ensure_identity_struct empty_store ''Aldridge'')"
    by simp
  from main [of empty_store "''Professor''", THEN conjunct1, rule_format, OF p0]
  have p1: "\<not> has_calendar_permission ''Professor''
      (ensure_identity_struct empty_store ''Professor'')"
    by simp
  have flag: "calendar_flag (profiles (session_of ident)) ''Professor'' = Some False" for ident
    by (simp add: session_of_def calendar_flag_def ensure_identity_struct_def empty_store_def
        empty_profile_def Let_def)
  have ia: "identity (session_of ''Aldridge'') = ''Aldridge''" by (simp add: session_of_def)
  have pp: "''Professor'' \<in> PERSONAS" by (simp add: PERSONAS_def)
  from main [of _ _ "session_of ''Aldridge''" "''Professor''" _ default_settings _ quiet,
      THEN conjunct2, THEN conjunct2, rule_format, OF conjI [OF ia pp], THEN conjunct1]
  have granted: "calendar_flag (profiles (fst (snd (step default_settings
         (Line (GrantCalendar ''Professor''), quiet) (session_of ''Aldridge''))))) ''Professor''
       = Some True" .
  have kept: "calendar_flag (profiles (fst (snd (step default_settings
         (Line (GrantCalendar ''Professor''), quiet) (session_of ''Professor''))))) ''Professor''
       = Some False"
  proof (rule ccontr)
    assume "\<not> ?thesis"
    with flag [of "''Professor''"]
    have "identity (session_of ''Professor'') = ''Aldridge''"
      using main [of _ _ "session_of ''Professor''" "''Professor''" False default_settings
          "(Line (GrantCalendar ''Professor''), quiet)", THEN conjunct2, THEN conjunct1]
      by blast
    then show False by (simp add: session_of_def)
  qed
  show ?thesis by (intro conjI a0 a1 p0 p1 flag ia pp granted kept)
qed

section \<open>Properties of the vote aggregator\<close>

text \<open>On a non-empty bank and with \<open>k\<close> at least one, the classifier raises nothing.\<close>

lemma knn_total:
  assumes "train \<noteq> []" "0 < k"
  shows "\<exists>r. knn d train x k thr = Inr r"
proof (cases "thr < nearest_dist d train x")
  case True
  then show ?thesis using assms by (simp add: knn_unfold)
next
  case False
  from vote_winner [OF knn_top_nonempty [OF assms, of d x]] obtain i where
    "np_argmax (np_unique_counts (knn_top d train x k)) = Inr i" by blast
  then show ?thesis using assms False by (simp add: knn_unfold)
qed

lemma faces_loop_Cons:
  assumes "knn d train (roi100 f) k (FACE_DIST_THRESH cfg) = Inr r"
  shows "faces_loop cfg d train names need k (f # faces) votes =
     (case face_vote cfg d train names k f of
        None \<Rightarrow> faces_loop cfg d train names need k faces votes
      | Some name \<Rightarrow>
          if votes_get votes name + 1 \<ge> need
          then Inr (Some name, votes(name \<mapsto> votes_get votes name + 1))
          else faces_loop cfg d train names need k faces (votes(name \<mapsto> votes_get votes name + 1)))"
  using assms by (simp add: face_vote_def split: option.splits)

lemma faces_loop_tally:
  assumes "train \<noteq> []" "0 < k"
  shows "faces_loop cfg d train names need k faces votes
     = Inr (tally_votes need votes (List.map_filter (face_vote cfg d train names k) faces))"
proof (induction faces arbitrary: votes)
  case Nil
  then show ?case by (simp add: map_filter_simps)
next
  case (Cons f faces)
  obtain r where r: "knn d train (roi100 f) k (FACE_DIST_THRESH cfg) = Inr r"
    using knn_total [OF assms] by blast
  show ?case
    by (cases "face_vote cfg d train names k f")
       (simp_all del: faces_loop.simps
          add: faces_loop_Cons [OF r] map_filter_simps Cons.IH fun_upd_def)
qed

lemma tally_votes_append:
  "tally_votes need votes (xs @ ys) =
     (case tally_votes need votes xs of
        (Some w, v) \<Rightarrow> (Some w, v)
      | (None, v) \<Rightarrow> tally_votes need v ys)"
  by (induction xs arbitrary: votes) auto

lemma stream_votes_step:
  "a < b \<Longrightarrow> stream_votes cfg d train names k cap a b
     = frame_votes cfg d train names k (cap a) @ stream_votes cfg d train names k cap (Suc a) b"
  by (simp add: stream_votes_def upt_conv_Cons)

lemma stream_votes_empty: "b \<le> a \<Longrightarrow> stream_votes cfg d train names k cap a b = []"
  by (simp add: stream_votes_def)

text \<open>One iteration of the outer loop, in terms of the votes of the frame it reads.\<close>

lemma frames_loop_unfold:
  assumes "train \<noteq> []" "0 < k"
  shows "frames_loop cfg d train names cap T need k votes frames =
     (if int frames < T then
        (case tally_votes need votes (frame_votes cfg d train names k (cap frames)) of
           (Some w, v') \<Rightarrow> Inr \<lparr>result = Some w, tally = v', frames_read = Suc frames\<rparr>
         | (None, v') \<Rightarrow> frames_loop cfg d train names cap T need k v' (Suc frames))
      else Inr \<lparr>result = None, tally = votes, frames_read = frames\<rparr>)"
proof (cases "cap frames")
  case None
  then show ?thesis
    by (subst frames_loop.simps) (simp add: frame_votes_def)
next
  case (Some faces)
  then show ?thesis
    by (subst frames_loop.simps)
       (simp add: frame_votes_def faces_loop_tally [OF assms] split: prod.splits option.splits)
qed

lemma frames_loop_total:
  assumes "train \<noteq> []" "0 < k"
  shows "\<exists>out. frames_loop cfg d train names cap T need k votes frames = Inr out"
proof (induction "nat T - frames" arbitrary: votes frames)
  case 0
  then have "\<not> int frames < T" by simp
  then show ?case by (simp add: frames_loop_unfold [OF assms])
next
  case (Suc n)
  then have lt: "int frames < T" and n: "n = nat T - Suc frames" by auto
  obtain r v' where tv: "tally_votes need votes (frame_votes cfg d train names k (cap frames)) = (r, v')"
    by (cases "tally_votes need votes (frame_votes cfg d train names k (cap frames))")
  show ?case
  proof (cases r)
    case None
    then show ?thesis using Suc.hyps(1) [OF n, of v'] lt tv
      by (simp add: frames_loop_unfold [OF assms, of cfg d names cap T need votes frames])
  next
    case (Some w)
    then show ?thesis using lt tv
      by (simp add: frames_loop_unfold [OF assms, of cfg d names cap T need votes frames])
  qed
qed

text \<open>
  The loop computes the tally of the votes of the frames from \<open>frames\<close> up to
  \<open>timeout_frames\<close>; its counter ends at \<open>timeout_frames\<close> when no label wins and
  at the frame of the winning vote otherwise.
\<close>

lemma frames_loop_spec:
  assumes "train \<noteq> []" "0 < k"
  shows "frames_loop cfg d train names cap T need k votes frames = Inr out \<Longrightarrow>
     (result out, tally out)
        = tally_votes need votes (stream_votes cfg d train names k cap frames (nat T))
     \<and> (result out = None \<longrightarrow> frames_read out = max frames (nat T))
     \<and> (result out \<noteq> None \<longrightarrow> frames < frames_read out \<and> frames_read out \<le> nat T
          \<and> fst (tally_votes need votes
                   (stream_votes cfg d train names k cap frames (frames_read out - 1))) = None
          \<and> fst (tally_votes need votes
                   (stream_votes cfg d train names k cap frames (frames_read out))) = result out)"
proof (induction "nat T - frames" arbitrary: votes frames)
  case 0
  then have ge: "\<not> int frames < T" "nat T \<le> frames" by auto
  with 0(2) have "out = \<lparr>result = None, tally = votes, frames_read = frames\<rparr>"
    by (simp add: frames_loop_unfold [OF assms])
  then show ?case using ge by (simp add: stream_votes_empty max_def)
next
  case (Suc n)
  let ?S = "stream_votes cfg d train names k cap"
  from Suc(2) have lt: "int frames < T" and lt': "frames < nat T"
    and n: "n = nat T - Suc frames" by auto
  obtain r v' where tv: "tally_votes need votes (frame_votes cfg d train names k (cap frames)) = (r, v')"
    by (cases "tally_votes need votes (frame_votes cfg d train names k (cap frames))")
  show ?case
  proof (cases r)
    case (Some w)
    have "out = \<lparr>result = Some w, tally = v', frames_read = Suc frames\<rparr>"
      using Suc(3) lt tv Some
      by (simp add: frames_loop_unfold [OF assms, of cfg d names cap T need votes frames])
    moreover have "tally_votes need votes (?S frames (nat T)) = (Some w, v')"
      using tv Some lt' by (simp add: stream_votes_step tally_votes_append)
    moreover have "?S frames (Suc frames) = frame_votes cfg d train names k (cap frames)"
      by (simp add: stream_votes_step stream_votes_empty)
    moreover have "?S frames frames = []" by (simp add: stream_votes_empty)
    ultimately show ?thesis using tv Some lt' by simp
  next
    case None
    have run: "frames_loop cfg d train names cap T need k v' (Suc frames) = Inr out"
      using Suc(3) lt tv None
      by (simp add: frames_loop_unfold [OF assms, of cfg d names cap T need votes frames])
    note IH = Suc(1) [OF n run]
    have st: "tally_votes need votes (?S frames b) = tally_votes need v' (?S (Suc frames) b)"
      if "frames < b" for b
      using that tv None by (simp add: stream_votes_step tally_votes_append)
    have c1: "(result out, tally out) = tally_votes need votes (?S frames (nat T))"
      using IH st [OF lt'] by simp
    have c2: "result out = None \<longrightarrow> frames_read out = max frames (nat T)"
      using IH lt' by auto
    have c3: "frames < frames_read out \<and> frames_read out \<le> nat T
          \<and> fst (tally_votes need votes (?S frames (frames_read out - 1))) = None
          \<and> fst (tally_votes need votes (?S frames (frames_read out))) = result out"
      if r: "result out \<noteq> None"
    proof -
      from IH r have o: "Suc frames < frames_read out" "frames_read out \<le> nat T"
        "fst (tally_votes need v' (?S (Suc frames) (frames_read out - 1))) = None"
        "fst (tally_votes need v' (?S (Suc frames) (frames_read out))) = result out"
        by auto
      from o(1) have b: "frames < frames_read out - 1" "frames < frames_read out" by auto
      show ?thesis using o st [OF b(1)] st [OF b(2)] b by simp
    qed
    show ?thesis using c1 c2 c3 by blast
  qed
qed

lemma reaches_append:
  "i < length vs \<Longrightarrow>
     reaches need (pre @ vs) (length pre + i)
       = (need \<le> int (count_list pre (vs ! i)) + int (count_list (take (Suc i) vs) (vs ! i)))"
  by (simp add: reaches_def nth_append)

lemma tally_votes_None:
  "\<forall>n. votes_get votes n = int (count_list pre n) \<Longrightarrow>
   (fst (tally_votes need votes vs) = None)
     = (\<forall>i<length vs. \<not> reaches need (pre @ vs) (length pre + i))"
proof (induction vs arbitrary: votes pre)
  case Nil
  then show ?case by simp
next
  case (Cons name rest)
  have zero: "reaches need (pre @ name # rest) (length pre + 0) = (need \<le> votes_get votes name + 1)"
    using Cons.prems reaches_append [of 0 "name # rest" need pre] by simp
  show ?case
  proof (cases "need \<le> votes_get votes name + 1")
    case True
    then show ?thesis using zero by auto
  next
    case False
    have inv: "\<forall>n. votes_get (votes(name \<mapsto> votes_get votes name + 1)) n = int (count_list (pre @ [name]) n)"
      using Cons.prems by (simp add: votes_get_def)
    have "(fst (tally_votes need votes (name # rest)) = None)
        = (\<forall>i<length rest. \<not> reaches need ((pre @ [name]) @ rest) (length (pre @ [name]) + i))"
      using False Cons.IH [OF inv] by (simp add: fun_upd_def)
    also have "\<dots> = (\<forall>i<length rest. \<not> reaches need (pre @ name # rest) (length pre + Suc i))"
      by simp
    also have "\<dots> = (\<forall>i<length (name # rest). \<not> reaches need (pre @ name # rest) (length pre + i))"
      using False zero by (simp add: All_less_Suc2)
    finally show ?thesis .
  qed
qed

lemma tally_votes_Some:
  "\<forall>n. votes_get votes n = int (count_list pre n) \<Longrightarrow>
   fst (tally_votes need votes vs) = Some w \<Longrightarrow>
   \<exists>i<length vs. w = vs ! i \<and> reaches need (pre @ vs) (length pre + i)
      \<and> (\<forall>j<i. \<not> reaches need (pre @ vs) (length pre + j))"
proof (induction vs arbitrary: votes pre)
  case Nil
  then show ?case by simp
next
  case (Cons name rest)
  have zero: "reaches need (pre @ name # rest) (length pre + 0) = (need \<le> votes_get votes name + 1)"
    using Cons.prems(1) reaches_append [of 0 "name # rest" need pre] by simp
  show ?case
  proof (cases "need \<le> votes_get votes name + 1")
    case True
    then have "w = name" using Cons.prems(2) by simp
    then show ?thesis using True zero by (intro exI [of _ 0]) simp
  next
    case False
    have inv: "\<forall>n. votes_get (votes(name \<mapsto> votes_get votes name + 1)) n = int (count_list (pre @ [name]) n)"
      using Cons.prems(1) by (simp add: votes_get_def)
    have run: "fst (tally_votes need (votes(name \<mapsto> votes_get votes name + 1)) rest) = Some w"
      using False Cons.prems(2) by simp
    from Cons.IH [OF inv run] obtain i where i: "i < length rest" "w = rest ! i"
      "reaches need ((pre @ [name]) @ rest) (length (pre @ [name]) + i)"
      "\<forall>j<i. \<not> reaches need ((pre @ [name]) @ rest) (length (pre @ [name]) + j)"
      by blast
    have a: "reaches need (pre @ name # rest) (length pre + Suc i)" using i(3) by simp
    have b: "\<forall>j<Suc i. \<not> reaches need (pre @ name # rest) (length pre + j)"
    proof (intro allI impI)
      fix j assume "j < Suc i"
      show "\<not> reaches need (pre @ name # rest) (length pre + j)"
      proof (cases j)
        case 0
        then show ?thesis using False zero by simp
      next
        case (Suc j')
        then have "j' < i" using \<open>j < Suc i\<close> by simp
        then show ?thesis using i(4) Suc by simp
      qed
    qed
    show ?thesis using i(1,2) a b by (intro exI [of _ "Suc i"]) simp
  qed
qed

lemma votes_get_empty: "\<forall>n. votes_get Map.empty n = int (count_list [] n)"
  by (simp add: votes_get_def)

lemma tally_empty_None:
  "(fst (tally_votes need Map.empty vs) = None) = (\<forall>i. \<not> reaches need vs i)"
proof -
  have "(fst (tally_votes need Map.empty vs) = None) = (\<forall>i<length vs. \<not> reaches need vs i)"
    using tally_votes_None [OF votes_get_empty, of need vs] by simp
  also have "\<dots> = (\<forall>i. \<not> reaches need vs i)"
    by (auto simp: reaches_def)
  finally show ?thesis .
qed

lemma tally_empty_Some:
  assumes "fst (tally_votes need Map.empty vs) = Some w"
  shows "\<exists>i. w = vs ! i \<and> reaches need vs i \<and> (\<forall>j<i. \<not> reaches need vs j)"
  using tally_votes_Some [OF votes_get_empty assms] by auto

lemma tally_empty_first:
  assumes "reaches need vs i" "\<forall>j<i. \<not> reaches need vs j"
  shows "fst (tally_votes need Map.empty vs) = Some (vs ! i)"
proof (cases "fst (tally_votes need Map.empty vs)")
  case None
  then show ?thesis using assms(1) tally_empty_None by blast
next
  case (Some w)
  from tally_empty_Some [OF Some] obtain i' where i': "w = vs ! i'" "reaches need vs i'"
    "\<forall>j<i'. \<not> reaches need vs j" by blast
  have "i' = i"
  proof (rule ccontr)
    assume "i' \<noteq> i"
    then consider "i' < i" | "i < i'" by linarith
    then show False using assms i' by cases auto
  qed
  then show ?thesis using Some i'(1) by simp
qed

text \<open>
  With a bank loaded, a camera opened and the cascade found, \<^verbatim>\<open>recognize_quick\<close>
  is the loop started on an empty tally.
\<close>

lemma recognize_run_loop:
  assumes "HAS_CV2 cfg" and "load_face_bank True (face_dataset world) = Some (train, names)"
      and "camera world = Some cap" and "cascade_ok world"
  shows "recognize_run cfg world timeout_frames need_votes k
     = frames_loop cfg (euclid_dist world) train names cap timeout_frames need_votes k Map.empty 0"
  using assms by (simp add: recognize_run_def)

text \<open>
  C4. For every frame stream, with a bank on which the classifier is defined
  (non-empty, \<open>k\<close> at least one), the loop returns. If some vote among those of
  the first \<open>timeout_frames\<close> frames brings its label to \<open>need_votes\<close>, the loop
  returns the label of the first such vote, whatever the later votes are; if none
  does, it returns \<open>None\<close> after \<open>timeout_frames\<close> frames. When it returns a
  label it does so in the frame in which the tally is reached: the votes of the
  frames read contain such a vote, and those of the frames before the last one read
  do not.
\<close>

theorem vote_aggregator_first_to_threshold:
  assumes "train \<noteq> []" and "0 < k"
  shows "\<exists>out. frames_loop cfg d train names cap T need k Map.empty 0 = Inr out
     \<and> (\<forall>i. reaches need (stream_votes cfg d train names k cap 0 (nat T)) i
             \<and> (\<forall>j<i. \<not> reaches need (stream_votes cfg d train names k cap 0 (nat T)) j)
           \<longrightarrow> result out = Some (stream_votes cfg d train names k cap 0 (nat T) ! i))
     \<and> ((\<forall>i. \<not> reaches need (stream_votes cfg d train names k cap 0 (nat T)) i)
           \<longrightarrow> result out = None \<and> frames_read out = nat T)
     \<and> (result out \<noteq> None \<longrightarrow> frames_read out \<le> nat T
           \<and> (\<exists>i. reaches need (stream_votes cfg d train names k cap 0 (frames_read out)) i)
           \<and> (\<forall>i. \<not> reaches need (stream_votes cfg d train names k cap 0 (frames_read out - 1)) i))"
proof -
  let ?S = "stream_votes cfg d train names k cap 0"
  from frames_loop_total [OF assms] obtain out where
    run: "frames_loop cfg d train names cap T need k Map.empty 0 = Inr out" by blast
  note spec = frames_loop_spec [OF assms run]
  have res: "result out = fst (tally_votes need Map.empty (?S (nat T)))"
    using spec by (metis fst_conv)
  have a: "result out = Some (?S (nat T) ! i)"
    if "reaches need (?S (nat T)) i \<and> (\<forall>j<i. \<not> reaches need (?S (nat T)) j)" for i
    using that res tally_empty_first by simp
  have b: "result out = None \<and> frames_read out = nat T" if "\<forall>i. \<not> reaches need (?S (nat T)) i"
  proof -
    have "result out = None" using that res tally_empty_None by simp
    then show ?thesis using spec by simp
  qed
  have c: "frames_read out \<le> nat T \<and> (\<exists>i. reaches need (?S (frames_read out)) i)
      \<and> (\<forall>i. \<not> reaches need (?S (frames_read out - 1)) i)" if r: "result out \<noteq> None"
  proof -
    from spec r have le: "frames_read out \<le> nat T"
      and n: "fst (tally_votes need Map.empty (?S (frames_read out - 1))) = None"
      and s: "fst (tally_votes need Map.empty (?S (frames_read out))) = result out"
      by auto
    from r s obtain w where "fst (tally_votes need Map.empty (?S (frames_read out))) = Some w"
      by (cases "result out") auto
    from tally_empty_Some [OF this] have "\<exists>i. reaches need (?S (frames_read out)) i" by blast
    then show ?thesis using le n tally_empty_None by blast
  qed
  show ?thesis using run a b c by blast
qed

section \<open>The aggregator on concrete streams\<close>

lemma knn_ab:
  "knn abs_dist (fst two_label_bank) 0 1 (2600::real) = Inr 0"
  "knn abs_dist (fst two_label_bank) 100 1 (2600::real) = Inr 1"
  by (simp_all add: knn_def knn_dists_def knn_top_def knn_neighbours_def py_prefix_def
      np_argmax_def np_unique_counts_def np_unique_vals_def two_label_bank_def abs_dist_def)

lemma face_vote_ab:
  "face_vote default_settings abs_dist (fst two_label_bank) (snd two_label_bank) 1 (sharp_face 0) = Some ''A''"
  "face_vote default_settings abs_dist (fst two_label_bank) (snd two_label_bank) 1 (sharp_face 100) = Some ''B''"
  using knn_ab
  by (simp_all add: face_vote_def sharp_face_def default_settings_def two_label_bank_def)

lemma votes_ab:
  "stream_votes default_settings abs_dist (fst two_label_bank) (snd two_label_bank) 1 a_then_b 0 (nat 5)
     = [''A'', ''A'', ''B'', ''B'', ''B'']"
  by (simp add: stream_votes_def upt_rec frame_votes_def a_then_b_def map_filter_simps face_vote_ab)

lemma knn_aldridge: "knn abs_dist (fst aldridge_bank) 0 5 (2600::real) = Inr 0"
  by (simp add: knn_def knn_dists_def knn_top_def knn_neighbours_def py_prefix_def
      np_argmax_def np_unique_counts_def np_unique_vals_def aldridge_bank_def abs_dist_def)

lemma face_vote_aldridge:
  "face_vote default_settings abs_dist (fst aldridge_bank) (snd aldridge_bank) 5 (sharp_face 0) = Some ''Aldridge''"
  using knn_aldridge
  by (simp add: face_vote_def sharp_face_def default_settings_def aldridge_bank_def)

lemma votes_ten:
  "stream_votes default_settings abs_dist (fst aldridge_bank) (snd aldridge_bank) 5 (\<lambda>n. Some [sharp_face 0]) 0 (nat 10)
     = replicate 10 ''Aldridge''"
  by (simp add: stream_votes_def upt_rec frame_votes_def map_filter_simps face_vote_aldridge numeral_eq_Suc)

lemma reaches_bound: "reaches need vs i \<Longrightarrow> need \<le> int (Suc i)"
proof -
  assume r: "reaches need vs i"
  have "count_list (take (Suc i) vs) (vs ! i) \<le> length (take (Suc i) vs)"
    by (rule count_le_length)
  also have "\<dots> \<le> Suc i" by simp
  finally show ?thesis using r by (simp add: reaches_def)
qed

lemma ten_run:
  "frames_loop default_settings abs_dist (fst aldridge_bank) (snd aldridge_bank) (\<lambda>n. Some [sharp_face 0]) 10 5 5 Map.empty 0
     = Inr \<lparr>result = Some ''Aldridge'', tally = [''Aldridge'' \<mapsto> 5], frames_read = 5\<rparr>"
  using knn_aldridge
  by (simp add: frames_loop.simps sharp_face_def default_settings_def aldridge_bank_def votes_get_def)

text \<open>
  Two streams. In the first, label \<open>A\<close> gets its second vote in the second frame
  and \<open>B\<close> gets three votes afterwards: with two votes required the loop returns
  \<open>A\<close>, although \<open>B\<close> has more votes among the five frames. In the second, ten
  frames are classified as Aldridge and five votes are required: the loop returns
  Aldridge after the fifth frame.
\<close>

theorem vote_aggregator_first_to_threshold_witness:
  "fst two_label_bank \<noteq> [] \<and> (0::int) < 1
   \<and> stream_votes default_settings abs_dist (fst two_label_bank) (snd two_label_bank) 1
        a_then_b 0 (nat 5) = [''A'', ''A'', ''B'', ''B'', ''B'']
   \<and> reaches 2 [''A'', ''A'', ''B'', ''B'', ''B''] 1
   \<and> \<not> reaches 2 [''A'', ''A'', ''B'', ''B'', ''B''] 0
   \<and> count_list [''A'', ''A'', ''B'', ''B'', ''B''] ''A''
        < count_list [''A'', ''A'', ''B'', ''B'', ''B''] ''B''
   \<and> (\<exists>out. frames_loop default_settings abs_dist (fst two_label_bank) (snd two_label_bank)
                a_then_b 5 2 1 Map.empty 0 = Inr out
             \<and> result out = Some ''A'')
   \<and> fst aldridge_bank \<noteq> [] \<and> (0::int) < 5
   \<and> stream_votes default_settings abs_dist (fst aldridge_bank) (snd aldridge_bank) 5
        (\<lambda>n. Some [sharp_face 0]) 0 (nat 10) = replicate 10 ''Aldridge''
   \<and> reaches 5 (replicate 10 ''Aldridge'') 4
   \<and> (\<exists>out. frames_loop default_settings abs_dist (fst aldridge_bank) (snd aldridge_bank)
                (\<lambda>n. Some [sharp_face 0]) 10 5 5 Map.empty 0 = Inr out
             \<and> result out = Some ''Aldridge'' \<and> frames_read out = 5)"
proof -
  let ?ab = "[''A'', ''A'', ''B'', ''B'', ''B'']"
  have ne2: "fst two_label_bank \<noteq> []" by (simp add: two_label_bank_def)
  have k1: "(0::int) < 1" by simp
  have r1: "reaches 2 ?ab 1" by (simp add: reaches_def)
  have r0: "\<not> reaches 2 ?ab 0" by (simp add: reaches_def)
  have first: "\<forall>j<1. \<not> reaches 2 ?ab j" using r0 by simp
  have more: "count_list ?ab ''A'' < count_list ?ab ''B''" by simp
  from vote_aggregator_first_to_threshold [OF ne2 k1, of default_settings abs_dist
      "snd two_label_bank" a_then_b 5 2]
  obtain out where out:
    "frames_loop default_settings abs_dist (fst two_label_bank) (snd two_label_bank)
       a_then_b 5 2 1 Map.empty 0 = Inr out"
    "\<forall>i. reaches 2 (stream_votes default_settings abs_dist (fst two_label_bank)
             (snd two_label_bank) 1 a_then_b 0 (nat 5)) i
         \<and> (\<forall>j<i. \<not> reaches 2 (stream_votes default_settings abs_dist (fst two_label_bank)
             (snd two_label_bank) 1 a_then_b 0 (nat 5)) j)
       \<longrightarrow> result out = Some (stream_votes default_settings abs_dist (fst two_label_bank)
             (snd two_label_bank) 1 a_then_b 0 (nat 5) ! i)"
    by blast
  from out(2) [unfolded votes_ab, rule_format, of 1] r1 first
  have "result out = Some ''A''" by simp
  with out(1) have ab: "\<exists>out. frames_loop default_settings abs_dist (fst two_label_bank)
      (snd two_label_bank) a_then_b 5 2 1 Map.empty 0 = Inr out \<and> result out = Some ''A''"
    by blast
  have ne1: "fst aldridge_bank \<noteq> []" by (simp add: aldridge_bank_def)
  have k5: "(0::int) < 5" by simp
  have r4: "reaches 5 (replicate 10 ''Aldridge'') 4"
    by (simp add: reaches_def numeral_eq_Suc)
  have first4: "\<forall>j<4. \<not> reaches 5 (replicate 10 ''Aldridge'') j"
    using reaches_bound [of 5 "replicate 10 ''Aldridge''"] by fastforce
  from vote_aggregator_first_to_threshold [OF ne1 k5, of default_settings abs_dist
      "snd aldridge_bank" "\<lambda>n. Some [sharp_face 0]" 10 5]
  obtain out' where out':
    "frames_loop default_settings abs_dist (fst aldridge_bank) (snd aldridge_bank)
       (\<lambda>n. Some [sharp_face 0]) 10 5 5 Map.empty 0 = Inr out'"
    "\<forall>i. reaches 5 (stream_votes default_settings abs_dist (fst aldridge_bank)
             (snd aldridge_bank) 5 (\<lambda>n. Some [sharp_face 0]) 0 (nat 10)) i
         \<and> (\<forall>j<i. \<not> reaches 5 (stream_votes default_settings abs_dist (fst aldridge_bank)
             (snd aldridge_bank) 5 (\<lambda>n. Some [sharp_face 0]) 0 (nat 10)) j)
       \<longrightarrow> result out' = Some (stream_votes default_settings abs_dist (fst aldridge_bank)
             (snd aldridge_bank) 5 (\<lambda>n. Some [sharp_face 0]) 0 (nat 10) ! i)"
    by blast
  from out'(2) [unfolded votes_ten, rule_format, of 4] r4 first4
  have "result out' = Some ''Aldridge''" by simp
  moreover have "frames_read out' = 5" using out'(1) unfolding ten_run by auto
  ultimately have ten: "\<exists>out. frames_loop default_settings abs_dist (fst aldridge_bank)
      (snd aldridge_bank) (\<lambda>n. Some [sharp_face 0]) 10 5 5 Map.empty 0 = Inr out
      \<and> result out = Some ''Aldridge'' \<and> frames_read out = 5"
    using out'(1) by blast
  show ?thesis by (intro conjI ne2 k1 votes_ab r1 r0 more ab ne1 k5 votes_ten r4 ten)
qed

section \<open>Votes per frame and the frame budget\<close>

text \<open>The tally after a sequence of votes is the tally before plus the votes counted.\<close>

lemma tally_votes_cast:
  "tally_votes need votes vs = (r, v') \<Longrightarrow>
     \<exists>cast. length cast \<le> length vs
       \<and> (\<forall>n. votes_get v' n = votes_get votes n + int (count_list cast n))"
proof (induction vs arbitrary: votes)
  case Nil
  then show ?case by (intro exI [of _ "[]"]) simp
next
  case (Cons name rest)
  show ?case
  proof (cases "need \<le> votes_get votes name + 1")
    case True
    then have "v' = votes(name \<mapsto> votes_get votes name + 1)" using Cons.prems by simp
    then show ?thesis by (intro exI [of _ "[name]"]) (simp add: votes_get_def)
  next
    case False
    then have "tally_votes need (votes(name \<mapsto> votes_get votes name + 1)) rest = (r, v')"
      using Cons.prems by simp
    from Cons.IH [OF this] obtain cast where cast: "length cast \<le> length rest"
      "\<forall>n. votes_get v' n
         = votes_get (votes(name \<mapsto> votes_get votes name + 1)) n + int (count_list cast n)"
      by blast
    show ?thesis using cast
      by (intro exI [of _ "name # cast"]) (simp add: votes_get_def)
  qed
qed

lemma length_map_filter_le: "length (List.map_filter f xs) \<le> length xs"
  by (simp add: map_filter_def)

lemma faces_loop_cast:
  assumes "train \<noteq> []" "0 < k"
  shows "\<exists>r votes' cast. faces_loop cfg d train names need k faces votes = Inr (r, votes')
     \<and> length cast \<le> length faces
     \<and> (\<forall>n. votes_get votes' n = votes_get votes n + int (count_list cast n))"
proof -
  let ?vs = "List.map_filter (face_vote cfg d train names k) faces"
  obtain r v' where tv: "tally_votes need votes ?vs = (r, v')"
    by (cases "tally_votes need votes ?vs")
  from tally_votes_cast [OF tv] obtain cast where cast: "length cast \<le> length ?vs"
    "\<forall>n. votes_get v' n = votes_get votes n + int (count_list cast n)" by blast
  have "length cast \<le> length faces"
    using cast(1) length_map_filter_le [of "face_vote cfg d train names k" faces] by simp
  then show ?thesis using faces_loop_tally [OF assms, of cfg d names need faces votes] tv cast(2)
    by auto
qed

text \<open>The loop depends on the camera only through the frames its counter has passed.\<close>

lemma frames_loop_reads_only:
  assumes "train \<noteq> []" "0 < k"
  shows "frames_loop cfg d train names cap T need k votes frames = Inr out \<Longrightarrow>
     \<forall>i. frames \<le> i \<and> i < frames_read out \<longrightarrow> cap' i = cap i \<Longrightarrow>
     frames_loop cfg d train names cap' T need k votes frames = Inr out"
proof (induction "nat T - frames" arbitrary: votes frames)
  case 0
  then have "\<not> int frames < T" by simp
  then show ?case using 0(2) by (simp add: frames_loop_unfold [OF assms])
next
  case (Suc n)
  from Suc(2) have lt: "int frames < T" and lt': "frames < nat T"
    and n: "n = nat T - Suc frames" by auto
  note spec = frames_loop_spec [OF assms Suc(3)]
  have "frames < frames_read out"
  proof (cases "result out")
    case None
    then show ?thesis using spec lt' by simp
  next
    case (Some w)
    then show ?thesis using spec by simp
  qed
  then have same: "cap' frames = cap frames" using Suc(4) by simp
  obtain r v' where tv: "tally_votes need votes (frame_votes cfg d train names k (cap frames)) = (r, v')"
    by (cases "tally_votes need votes (frame_votes cfg d train names k (cap frames))")
  show ?case
  proof (cases r)
    case (Some w)
    then show ?thesis using Suc(3) lt tv same
      by (simp add: frames_loop_unfold [OF assms, of cfg d names _ T need votes frames])
  next
    case None
    have run: "frames_loop cfg d train names cap T need k v' (Suc frames) = Inr out"
      using Suc(3) lt tv None
      by (simp add: frames_loop_unfold [OF assms, of cfg d names cap T need votes frames])
    have "frames_loop cfg d train names cap' T need k v' (Suc frames) = Inr out"
      using Suc(1) [OF n run] Suc(4) by simp
    then show ?thesis using lt tv None same
      by (simp add: frames_loop_unfold [OF assms, of cfg d names cap' T need votes frames])
  qed
qed

text \<open>
  C8, as the code has it. Each detected face of a frame contributes at most one
  vote: the tally after the inner loop is the tally before plus a list of votes no
  longer than the list of faces detected in the frame (so a frame with several faces
  can contribute several votes). Every frame read counts once against the budget,
  whatever it holds: the counter never exceeds \<open>timeout_frames\<close>, it is
  \<open>timeout_frames\<close> when no label wins, and the loop's outcome depends on the camera
  only through the frames the counter has counted.
\<close>

theorem votes_per_face_and_frame_budget:
  assumes "train \<noteq> []" and "0 < k"
  shows "(\<exists>r votes' cast. faces_loop cfg d train names need k faces votes = Inr (r, votes')
            \<and> length cast \<le> length faces
            \<and> (\<forall>n. votes_get votes' n = votes_get votes n + int (count_list cast n)))
     \<and> (\<exists>out. frames_loop cfg d train names cap T need k Map.empty 0 = Inr out
            \<and> frames_read out \<le> nat T
            \<and> (result out = None \<longrightarrow> frames_read out = nat T)
            \<and> (\<forall>cap'. (\<forall>i<frames_read out. cap' i = cap i) \<longrightarrow>
                  frames_loop cfg d train names cap' T need k Map.empty 0 = Inr out))"
proof
  show "\<exists>r votes' cast. faces_loop cfg d train names need k faces votes = Inr (r, votes')
            \<and> length cast \<le> length faces
            \<and> (\<forall>n. votes_get votes' n = votes_get votes n + int (count_list cast n))"
    by (rule faces_loop_cast [OF assms])
next
  from frames_loop_total [OF assms] obtain out where
    run: "frames_loop cfg d train names cap T need k Map.empty 0 = Inr out" by blast
  note spec = frames_loop_spec [OF assms run]
  have le: "frames_read out \<le> nat T"
  proof (cases "result out")
    case None
    then show ?thesis using spec by simp
  next
    case (Some w)
    then show ?thesis using spec by simp
  qed
  have none: "result out = None \<longrightarrow> frames_read out = nat T" using spec by simp
  have only: "\<forall>cap'. (\<forall>i<frames_read out. cap' i = cap i) \<longrightarrow>
      frames_loop cfg d train names cap' T need k Map.empty 0 = Inr out"
  proof (intro allI impI)
    fix cap' assume "\<forall>i<frames_read out. cap' i = cap i"
    then have "\<forall>i. 0 \<le> i \<and> i < frames_read out \<longrightarrow> cap' i = cap i" by simp
    with run show "frames_loop cfg d train names cap' T need k Map.empty 0 = Inr out"
      by (rule frames_loop_reads_only [OF assms])
  qed
  show "\<exists>out. frames_loop cfg d train names cap T need k Map.empty 0 = Inr out
            \<and> frames_read out \<le> nat T
            \<and> (result out = None \<longrightarrow> frames_read out = nat T)
            \<and> (\<forall>cap'. (\<forall>i<frames_read out. cap' i = cap i) \<longrightarrow>
                  frames_loop cfg d train names cap' T need k Map.empty 0 = Inr out)"
    by (intro exI [of _ out] conjI run le none only)
qed

text \<open>
  A frame with two faces, and a camera whose reads all fail: the three failed reads
  use up a budget of three frames.
\<close>

theorem votes_per_face_and_frame_budget_witness:
  "fst aldridge_bank \<noteq> [] \<and> (0::int) < 5
   \<and> (\<exists>r votes' cast.
         faces_loop default_settings abs_dist (fst aldridge_bank) (snd aldridge_bank) 5 5
           [sharp_face 0, sharp_face 0] Map.empty = Inr (r, votes')
         \<and> length cast \<le> length [sharp_face (0::real), sharp_face 0]
         \<and> (\<forall>n. votes_get votes' n = votes_get Map.empty n + int (count_list cast n)))
   \<and> (\<exists>out. frames_loop default_settings abs_dist (fst aldridge_bank) (snd aldridge_bank)
                (\<lambda>n. None) 3 5 5 Map.empty 0 = Inr out
         \<and> frames_read out = 3 \<and> result out = None)"
proof -
  have ne: "fst aldridge_bank \<noteq> []" by (simp add: aldridge_bank_def)
  have k5: "(0::int) < 5" by simp
  note both = votes_per_face_and_frame_budget [OF ne k5, of default_settings abs_dist
      "snd aldridge_bank" 5 "[sharp_face 0, sharp_face 0]" Map.empty "\<lambda>n. None" 3]
  from both have faces: "\<exists>r votes' cast.
         faces_loop default_settings abs_dist (fst aldridge_bank) (snd aldridge_bank) 5 5
           [sharp_face 0, sharp_face 0] Map.empty = Inr (r, votes')
         \<and> length cast \<le> length [sharp_face (0::real), sharp_face 0]
         \<and> (\<forall>n. votes_get votes' n = votes_get Map.empty n + int (count_list cast n))"
    by (rule conjunct1)
  from both obtain out where out:
    "frames_loop default_settings abs_dist (fst aldridge_bank) (snd aldridge_bank)
       (\<lambda>n. None) 3 5 5 Map.empty 0 = Inr out"
    "result out = None \<longrightarrow> frames_read out = nat 3"
    by (elim conjE exE)
  have "frames_loop default_settings abs_dist (fst aldridge_bank) (snd aldridge_bank)
       (\<lambda>n. None) 3 5 5 Map.empty 0
     = Inr \<lparr>result = None, tally = Map.empty, frames_read = 3\<rparr>"
    by (simp add: frames_loop.simps)
  with out(1) have "result out = None" by auto
  with out have frames: "\<exists>out. frames_loop default_settings abs_dist (fst aldridge_bank)
      (snd aldridge_bank) (\<lambda>n. None) 3 5 5 Map.empty 0 = Inr out
      \<and> frames_read out = 3 \<and> result out = None"
    by auto
  show ?thesis by (intro conjI ne k5 faces frames)
qed

text \<open>
  The claim as stated fails on a frame in which two faces are detected: that one
  frame adds two votes to the tally, and with two votes required the loop returns
  after reading a single frame.
\<close>

theorem one_frame_two_votes:
  "faces_loop default_settings abs_dist (fst aldridge_bank) (snd aldridge_bank) 5 5
       [sharp_face 0, sharp_face 0] Map.empty
     = Inr (None, [''Aldridge'' \<mapsto> 2])
   \<and> frames_loop default_settings abs_dist (fst aldridge_bank) (snd aldridge_bank)
       (\<lambda>n. Some [sharp_face 0, sharp_face 0]) 1 2 5 Map.empty 0
     = Inr \<lparr>result = Some ''Aldridge'', tally = [''Aldridge'' \<mapsto> 2], frames_read = 1\<rparr>"
  using knn_aldridge
  by (simp add: frames_loop.simps sharp_face_def default_settings_def aldridge_bank_def votes_get_def)

end
